theory Spec2Isabelle
  imports Main "HOL-Library.Finite_Map"
begin

section \<open>ArrayStream: data model\<close>

text \<open>
  The development embeds \<^verbatim>\<open>src/ArrayStream.js\<close>. The class extends Node's
  \<^verbatim>\<open>Writable\<close> in object mode, which hands the chunks to \<^verbatim>\<open>_write\<close> one at a time,
  in submission order, and calls \<^verbatim>\<open>_final\<close> once after the last of them; the model
  is therefore sequential. The file system is a finite map from paths to file contents;
  folders, permissions and I/O failures are not modelled.
\<close>

type_synonym path = string
type_synonym filesystem = "(path, string) fmap"

text \<open>
  A chunk is a \<^verbatim>\<open>Buffer\<close>, a string, or any other JavaScript value. What the host does
  with such a value (\<^verbatim>\<open>JSON.stringify\<close>, and the string coercion of \<^verbatim>\<open>this.sep + chunk\<close>)
  is a parameter of the model.
\<close>

datatype 'v chunk = Buf string | Str string | Val 'v

datatype stringify_result = Returns string | ReturnsUndefined | Throws

record 'v host =
  JSON_stringify :: "'v \<Rightarrow> stringify_result"
  toString :: "'v \<Rightarrow> string"

record file_config =
  folder :: string
  keyPattern :: string
  fileType :: string
  numDigits :: nat

text \<open>
  The configuration after \<^verbatim>\<open>configValidator.validate\<close> has filled in the defaults.
  A schema without a \<^verbatim>\<open>validate\<close> method is excluded by the type of
  \<open>itemValidationSchema\<close>; the validator answers \<open>Some e\<close> when it returns or throws
  the error \<open>e\<close>. The options \<^verbatim>\<open>mkdirRecursive\<close>, \<^verbatim>\<open>verbose\<close> and \<^verbatim>\<open>debug\<close> only
  concern folder creation and logging.
\<close>

record ('v, 'e) config =
  file_cfg :: file_config
  maxItems :: nat
  itemValidationSchema :: "('v chunk \<Rightarrow> 'e option) option"
  overwrite :: bool
  lazy :: bool
  append_cfg :: bool

text \<open>
  An open \<^verbatim>\<open>fs.WriteStream\<close>: the file it writes, the position of its next write, and
  whether it was opened with an append flag (\<^verbatim>\<open>a+\<close>).
\<close>

record wstream =
  wpath :: path
  wpos :: nat
  wappend :: bool

text \<open>
  The fields of an \<^verbatim>\<open>ArrayStream\<close> instance, together with the disk it writes to.
  \<open>itemLog\<close> is a history variable that no code reads: it records, for every item
  handed to \<^verbatim>\<open>outstream.write\<close> in \<^verbatim>\<open>_write\<close>, the path of the file that received it.
\<close>

record ('v, 'e) arraystream =
  config :: "('v, 'e) config"
  sep :: string
  count :: nat
  fileCount :: nat
  files :: "path list"
  key :: string
  destroyed :: bool
  outstream :: "wstream option"
  disk :: filesystem
  itemLog :: "path list"

datatype 'e error =
  ConfigError | ValidationError 'e | StringifyError | WriteError | StreamClosedError

datatype 'e callback = CbOk | CbErr "'e error"

section \<open>Constants and file names\<close>

text \<open>
  Modelled from the spec: \<^verbatim>\<open>src/lib/constants.js\<close> is missing; the spec gives the JSON
  element separator as the comma.
\<close>

definition SEPARATOR :: string where
  "SEPARATOR = '',''"

definition digit :: "nat \<Rightarrow> char" where
  "digit d = char_of (48 + d)"

text \<open>\<^verbatim>\<open>Number.prototype.toString\<close> on a non-negative integer.\<close>

fun number_toString :: "nat \<Rightarrow> string" where
  "number_toString n =
     (if n < 10 then [digit n] else number_toString (n div 10) @ [digit (n mod 10)])"

declare number_toString.simps [simp del]

definition padStart :: "nat \<Rightarrow> char \<Rightarrow> string \<Rightarrow> string" where
  "padStart w c s = replicate (w - length s) c @ s"

text \<open>
  \<^verbatim>\<open>pattern.replace(/\$\$/, r)\<close>: the first occurrence of two dollar signs is replaced
  (\<open>r\<close> is a string of digits, so it holds no replacement pattern).
\<close>

fun replace_placeholder :: "string \<Rightarrow> string \<Rightarrow> string" where
  "replace_placeholder (a # b # cs) r =
     (if a = CHR ''$'' \<and> b = CHR ''$'' then r @ cs
      else a # replace_placeholder (b # cs) r)"
| "replace_placeholder cs r = cs"

definition generateKey :: "file_config \<Rightarrow> nat \<Rightarrow> string" where
  "generateKey fc n =
     replace_placeholder (keyPattern fc) (padStart (numDigits fc) (CHR ''0'') (number_toString n))
       @ ''.'' @ fileType fc"

definition incrementKey :: "('v, 'e) arraystream \<Rightarrow> ('v, 'e) arraystream" where
  "incrementKey s =
     s\<lparr>key := generateKey (file_cfg (config s)) (fileCount s), fileCount := fileCount s + 1\<rparr>"

definition incrementCount :: "('v, 'e) arraystream \<Rightarrow> ('v, 'e) arraystream" where
  "incrementCount s = s\<lparr>count := count s + 1\<rparr>"

definition resetCount :: "('v, 'e) arraystream \<Rightarrow> ('v, 'e) arraystream" where
  "resetCount s = s\<lparr>count := 0\<rparr>"

definition getCount :: "('v, 'e) arraystream \<Rightarrow> nat" where
  "getCount s = count s"

definition getTotalCount :: "('v, 'e) arraystream \<Rightarrow> nat" where
  "getTotalCount s =
     (if length (files s) > 1 then (length (files s) - 1) * maxItems (config s) + count s
      else count s)"

definition getFilePaths :: "('v, 'e) arraystream \<Rightarrow> path list" where
  "getFilePaths s = files s"

text \<open>\<^verbatim>\<open>path.join\<close> on a folder and a file name (no normalisation of the folder).\<close>

definition path_join :: "string \<Rightarrow> string \<Rightarrow> path" where
  "path_join d k = d @ ''/'' @ k"

text \<open>\<^verbatim>\<open>getConfig().filePath\<close>.\<close>

definition getConfig :: "('v, 'e) arraystream \<Rightarrow> path" where
  "getConfig s = path_join (folder (file_cfg (config s))) (key s)"

section \<open>Write streams\<close>

text \<open>\<^verbatim>\<open>fs.createWriteStream(p)\<close>, flags \<^verbatim>\<open>w\<close>: the file is created or truncated.\<close>

definition createWriteStream :: "path \<Rightarrow> ('v, 'e) arraystream \<Rightarrow> ('v, 'e) arraystream" where
  "createWriteStream p s =
     s\<lparr>outstream := Some \<lparr>wpath = p, wpos = 0, wappend = False\<rparr>,
       disk := fmupd p [] (disk s)\<rparr>"

text \<open>
  \<^verbatim>\<open>this.outstream.write(d)\<close>. A stream opened with the flag \<^verbatim>\<open>w\<close> writes at its
  position, which advances. A stream opened with the flag \<^verbatim>\<open>a+\<close> has its file in
  append mode: the operating system (Linux) ignores the position of a write to such a
  file, also the one that \<^verbatim>\<open>start\<close> has set, and puts the bytes at the end of the file.
\<close>

definition stream_write :: "string \<Rightarrow> ('v, 'e) arraystream \<Rightarrow> ('v, 'e) arraystream" where
  "stream_write d s =
     (case outstream s of
        None \<Rightarrow> s
      | Some h \<Rightarrow>
          (let old = (case fmlookup (disk s) (wpath h) of None \<Rightarrow> [] | Some c \<Rightarrow> c);
               new = (if wappend h then old @ d
                      else take (wpos h) old @ d @ drop (wpos h + length d) old)
           in s\<lparr>disk := fmupd (wpath h) new (disk s),
                 outstream := Some (h\<lparr>wpos := wpos h + length d\<rparr>)\<rparr>))"

text \<open>\<^verbatim>\<open>fs.readSync(fd, buf, 0, 1, off)\<close>: the byte read, if the offset is inside the file.\<close>

definition readSync :: "string \<Rightarrow> nat \<Rightarrow> char option" where
  "readSync content off = (if off < length content then Some (content ! off) else None)"

section \<open>Opening and rotating\<close>

text \<open>
  The loop of \<^verbatim>\<open>openOutstream\<close> under the default policy: while \<^verbatim>\<open>fs.statSync\<close> finds a
  file at the current path, the key is incremented. The loop need not end (a pattern
  without placeholder names the same file for ever), so not returning is \<open>None\<close>.
\<close>

partial_function (option) skipExisting :: "('v, 'e) arraystream \<Rightarrow> ('v, 'e) arraystream option" where
  "skipExisting s =
     (if fmlookup (disk s) (getConfig s) \<noteq> None then skipExisting (incrementKey s)
      else Some s)"

declare skipExisting.simps [code]

text \<open>The \<^verbatim>\<open>catch\<close> branch of \<^verbatim>\<open>openOutstream\<close>: a new or truncated file that starts with \<^verbatim>\<open>[\<close>.\<close>

definition openOverwrite :: "path \<Rightarrow> ('v, 'e) arraystream \<Rightarrow> ('v, 'e) arraystream" where
  "openOverwrite p s = (stream_write ''['' (createWriteStream p s))\<lparr>sep := []\<rparr>"

text \<open>
  The \<^verbatim>\<open>try\<close> branch of \<^verbatim>\<open>openOutstream\<close> on an existing file: the separator is read off
  the byte at \<open>size - 3\<close>, and the stream is made with the flag \<^verbatim>\<open>a+\<close> and the start
  \<open>size - 2\<close>. \<^verbatim>\<open>fs.createWriteStream\<close>
  throws on a negative \<^verbatim>\<open>start\<close>, which sends a file of fewer than two bytes to the
  \<^verbatim>\<open>catch\<close> branch.
\<close>

definition useSep :: "string \<Rightarrow> bool" where
  "useSep content =
     (let size = length content
      in if size \<ge> 3 then
           (case readSync content (size - 3) of
              Some c \<Rightarrow> \<not> (c = CHR ''['' \<or> c = CHR '','')
            | None \<Rightarrow> False)
         else False)"

definition openAppend :: "path \<Rightarrow> string \<Rightarrow> ('v, 'e) arraystream \<Rightarrow> ('v, 'e) arraystream" where
  "openAppend p content s =
     (let size = length content
      in if size < 2 then openOverwrite p s
         else s\<lparr>outstream := Some \<lparr>wpath = p, wpos = size - 2, wappend = True\<rparr>,
                sep := (if useSep content then SEPARATOR else [])\<rparr>)"

definition openOutstream :: "('v, 'e) arraystream \<Rightarrow> ('v, 'e) arraystream option" where
  "openOutstream s =
     (case (if \<not> append_cfg (config s) \<and> \<not> overwrite (config s) then skipExisting s
            else Some s) of
        None \<Rightarrow> None
      | Some s1 \<Rightarrow>
          (let p = getConfig s1;
               s2 = s1\<lparr>files := files s1 @ [p]\<rparr>
           in Some (if overwrite (config s2) then openOverwrite p s2
                    else (case fmlookup (disk s2) p of
                            Some content \<Rightarrow> openAppend p content s2
                          | None \<Rightarrow> openOverwrite p s2))))"

text \<open>
  \<^verbatim>\<open>resetOutstream(final)\<close>: an open stream is ended with the terminator and a newline;
  then either the next file is opened or the handle is dropped.
\<close>

definition terminator :: string where
  "terminator = [CHR '']'', CHR 0x0A]"

definition resetOutstream :: "bool \<Rightarrow> ('v, 'e) arraystream \<Rightarrow> ('v, 'e) arraystream option" where
  "resetOutstream final s =
     (let s1 = (case outstream s of Some h \<Rightarrow> stream_write terminator s | None \<Rightarrow> s)
      in if \<not> final then openOutstream (incrementKey (resetCount s1))
         else Some (s1\<lparr>outstream := None\<rparr>))"

definition flushOutstream :: "bool \<Rightarrow> ('v, 'e) arraystream \<Rightarrow> ('v, 'e) arraystream option" where
  "flushOutstream final s =
     (if destroyed s then Some s
      else resetOutstream final (s\<lparr>destroyed := (if final then True else destroyed s)\<rparr>))"

text \<open>\<^verbatim>\<open>_final\<close>.\<close>

definition final_private :: "('v, 'e) arraystream \<Rightarrow> ('v, 'e) arraystream option" where
  "final_private s = flushOutstream True s"

section \<open>Writing an item\<close>

definition validateChunk :: "('v chunk \<Rightarrow> 'e option) \<Rightarrow> 'v chunk \<Rightarrow> 'e option" where
  "validateChunk schema chunk =
     schema (case chunk of Buf b \<Rightarrow> Str b | _ \<Rightarrow> chunk)"

text \<open>
  The conversion step of \<^verbatim>\<open>_write\<close>: the callbacks it makes and the text that
  \<^verbatim>\<open>this.sep + chunk\<close> then appends. When \<^verbatim>\<open>JSON.stringify\<close> throws, the \<^verbatim>\<open>catch\<close> calls
  back with the error and the function goes on with the chunk as it was.
\<close>

definition convertChunk :: "'v host \<Rightarrow> 'v chunk \<Rightarrow> 'e callback list \<times> string" where
  "convertChunk h chunk =
     (case chunk of
        Buf b \<Rightarrow> ([], b)
      | Str t \<Rightarrow> ([], t)
      | Val v \<Rightarrow>
          (case JSON_stringify h v of
             Returns t \<Rightarrow> ([], t)
           | ReturnsUndefined \<Rightarrow> ([], ''undefined'')
           | Throws \<Rightarrow> ([CbErr StringifyError], toString h v)))"

text \<open>
  \<^verbatim>\<open>this.outstream.write(this.sep + chunk, ...)\<close> and its callback, which sets the
  separator, increments the count and calls back.
\<close>

definition writeItem :: "string \<Rightarrow> ('v, 'e) arraystream \<Rightarrow> ('v, 'e) arraystream" where
  "writeItem t s =
     (let s1 = stream_write (sep s @ t) s;
          s2 = (if sep s1 = [] then s1\<lparr>sep := SEPARATOR\<rparr> else s1)
      in (incrementCount s2)
           \<lparr>itemLog := itemLog s2 @ (case outstream s of Some h \<Rightarrow> [wpath h] | None \<Rightarrow> [])\<rparr>)"

text \<open>The lazy opening at the head of \<^verbatim>\<open>_write\<close>.\<close>

definition lazyOpen :: "('v, 'e) arraystream \<Rightarrow> ('v, 'e) arraystream option" where
  "lazyOpen s = (if lazy (config s) \<and> outstream s = None then openOutstream s else Some s)"

text \<open>
  \<^verbatim>\<open>_write\<close>: the callbacks made, in order, and the state left. The first line calls back
  on a destroyed stream and goes on; a failed validation calls back and returns;
  \<^verbatim>\<open>this.outstream.write\<close> on a null stream throws a TypeError inside the \<^verbatim>\<open>try\<close>.
\<close>

definition write_private ::
  "'v host \<Rightarrow> ('v, 'e) arraystream \<Rightarrow> 'v chunk \<Rightarrow> ('e callback list \<times> ('v, 'e) arraystream) option" where
  "write_private h s chunk =
     (let cb0 = (if destroyed s then [CbOk] else [])
      in case lazyOpen s of
           None \<Rightarrow> None
         | Some s1 \<Rightarrow>
             (case (case itemValidationSchema (config s1) of
                      Some schema \<Rightarrow> validateChunk schema chunk
                    | None \<Rightarrow> None) of
                Some err \<Rightarrow> Some (cb0 @ [CbErr (ValidationError err)], s1)
              | None \<Rightarrow>
                  (let (cb1, t) = convertChunk h chunk
                   in if count s1 \<ge> maxItems (config s1) then
                        (case resetOutstream False s1 of
                           None \<Rightarrow> None
                         | Some s2 \<Rightarrow> Some (cb0 @ cb1 @ [CbOk], writeItem t s2))
                      else if outstream s1 = None then
                        Some (cb0 @ cb1 @ [CbErr WriteError], s1)
                      else Some (cb0 @ cb1 @ [CbOk], writeItem t s1))))"

text \<open>
  Modelled from the spec: the method \<^verbatim>\<open>write\<close> that callers use is inherited from Node's
  \<^verbatim>\<open>stream.Writable\<close>, which is not among the sources. On an engine that has been
  finalized it fails with a "stream closed" error and leaves the engine alone; on any other
  engine it hands the item to \<^verbatim>\<open>_write\<close>.
\<close>

definition write_public ::
  "'v host \<Rightarrow> ('v, 'e) arraystream \<Rightarrow> 'v chunk \<Rightarrow> ('e callback list \<times> ('v, 'e) arraystream) option" where
  "write_public h s chunk =
     (if destroyed s then Some ([CbErr StreamClosedError], s) else write_private h s chunk)"

section \<open>Construction and runs\<close>

text \<open>
  The constructor, on a validated configuration and the disk it finds. The redundant
  file type at the end of the key pattern is cut off (for a file type without regular
  expression operators, such as \<^verbatim>\<open>json\<close>, the replacement removes exactly that suffix).
\<close>

definition trimKeyPattern :: "file_config \<Rightarrow> file_config" where
  "trimKeyPattern fc =
     (let suffix = ''.'' @ fileType fc; p = keyPattern fc
      in if length suffix \<le> length p \<and> drop (length p - length suffix) p = suffix
         then fc\<lparr>keyPattern := take (length p - length suffix) p\<rparr>
         else fc)"

text \<open>The fields as the constructor sets them, after its call of \<^verbatim>\<open>incrementKey\<close>.\<close>

definition initialState :: "('v, 'e) config \<Rightarrow> filesystem \<Rightarrow> ('v, 'e) arraystream" where
  "initialState cfg d =
     incrementKey
       \<lparr>config = cfg, sep = [], count = 0, fileCount = 0, files = [], key = [],
        destroyed = False, outstream = None, disk = d, itemLog = []\<rparr>"

definition constructor ::
  "('v, 'e) config \<Rightarrow> filesystem \<Rightarrow> ('e error + ('v, 'e) arraystream) option" where
  "constructor args d =
     (if append_cfg args \<and> overwrite args then Some (Inl ConfigError)
      else
        (let cfg = args\<lparr>file_cfg := trimKeyPattern (file_cfg args)\<rparr>;
             s = initialState cfg d
         in if \<not> lazy cfg then map_option Inr (openOutstream s) else Some (Inr s)))"

text \<open>Writing a list of chunks, one after the other.\<close>

fun writeAll ::
  "'v host \<Rightarrow> ('v, 'e) arraystream \<Rightarrow> 'v chunk list \<Rightarrow> ('v, 'e) arraystream option" where
  "writeAll h s [] = Some s"
| "writeAll h s (c # cs) =
     (case write_private h s c of None \<Rightarrow> None | Some (cbs, s') \<Rightarrow> writeAll h s' cs)"

section \<open>Notions used by the statements\<close>

text \<open>The key pattern holds the placeholder that \<^verbatim>\<open>incrementKey\<close> replaces.\<close>

fun has_placeholder :: "string \<Rightarrow> bool" where
  "has_placeholder (a # b # cs) =
     ((a = CHR ''$'' \<and> b = CHR ''$'') \<or> has_placeholder (b # cs))"
| "has_placeholder cs = False"

text \<open>The path of the file with index \<open>n\<close>.\<close>

definition indexPath :: "('v, 'e) config \<Rightarrow> nat \<Rightarrow> path" where
  "indexPath c n = path_join (folder (file_cfg c)) (generateKey (file_cfg c) n)"

text \<open>The key is the one generated last: it names the file of index \<open>fileCount - 1\<close>.\<close>

definition key_current :: "('v, 'e) arraystream \<Rightarrow> bool" where
  "key_current s =
     (1 \<le> fileCount s \<and> key s = generateKey (file_cfg (config s)) (fileCount s - 1))"

definition setIndex :: "nat \<Rightarrow> ('v, 'e) arraystream \<Rightarrow> ('v, 'e) arraystream" where
  "setIndex n s = s\<lparr>key := generateKey (file_cfg (config s)) n, fileCount := n + 1\<rparr>"

text \<open>Reading a decimal numeral back, leading zeros included.\<close>

definition digit_value :: "char \<Rightarrow> nat" where
  "digit_value c = of_char c - 48"

definition parse_nat :: "string \<Rightarrow> nat" where
  "parse_nat cs = foldl (\<lambda>a c. 10 * a + digit_value c) 0 cs"

text \<open>
  The text of a JSON array with the elements \<open>es\<close>, as the engine lays it out: the
  opening bracket, the elements with the separator between them, and for a finished
  file the terminator. A file holds the elements \<open>es\<close> when its content is
  \<open>arrayText es\<close>; decoding it as a JSON array gives back the values the element
  texts denote, in this order.
\<close>

fun joinElements :: "string list \<Rightarrow> string" where
  "joinElements [] = []"
| "joinElements [e] = e"
| "joinElements (e # es) = e @ SEPARATOR @ joinElements es"

definition arrayOpen :: "string list \<Rightarrow> string" where
  "arrayOpen es = ''['' @ joinElements es"

definition arrayText :: "string list \<Rightarrow> string" where
  "arrayText es = arrayOpen es @ terminator"

text \<open>
  An item passes validation when no validator is configured or the validator reports
  no error; it passes encoding when it is a buffer or a string, or \<^verbatim>\<open>JSON.stringify\<close>
  returns a text for it.
\<close>

definition passesValidation :: "('v, 'e) config \<Rightarrow> 'v chunk \<Rightarrow> bool" where
  "passesValidation c chunk =
     (case itemValidationSchema c of
        None \<Rightarrow> True
      | Some schema \<Rightarrow> validateChunk schema chunk = None)"

definition encode :: "'v host \<Rightarrow> 'v chunk \<Rightarrow> string option" where
  "encode h chunk =
     (case chunk of
        Buf b \<Rightarrow> Some b
      | Str t \<Rightarrow> Some t
      | Val v \<Rightarrow> (case JSON_stringify h v of Returns t \<Rightarrow> Some t | _ \<Rightarrow> None))"

definition validItem :: "'v host \<Rightarrow> ('v, 'e) config \<Rightarrow> 'v chunk \<Rightarrow> bool" where
  "validItem h c chunk = (passesValidation c chunk \<and> encode h chunk \<noteq> None)"

definition ceil_div :: "nat \<Rightarrow> nat \<Rightarrow> nat" where
  "ceil_div n m = (n + m - 1) div m"

text \<open>
  The lifecycle of an engine: it is constructed, items are written while it is not
  finalized, and it is finalized (\<^verbatim>\<open>Writable\<close> calls \<^verbatim>\<open>_write\<close> only before \<^verbatim>\<open>_final\<close>).
\<close>

inductive reachable :: "'v host \<Rightarrow> ('v, 'e) arraystream \<Rightarrow> bool" for h :: "'v host" where
  constructed: "constructor args d = Some (Inr s) \<Longrightarrow> reachable h s"
| written: "reachable h s \<Longrightarrow> \<not> destroyed s \<Longrightarrow> write_private h s chunk = Some (cbs, s')
            \<Longrightarrow> reachable h s'"
| finalized: "reachable h s \<Longrightarrow> final_private s = Some s' \<Longrightarrow> reachable h s'"

section \<open>A concrete engine\<close>

text \<open>
  Values, a host, a validator and a configuration on which the statements below are
  exercised. The validator wants a value and rejects strings and buffers, as the schema
  of \<^verbatim>\<open>src/test.js\<close> does; \<open>JCircular\<close> stands for an object that \<^verbatim>\<open>JSON.stringify\<close>
  refuses.
\<close>

datatype js_value = JNumber nat | JCircular

definition ex_host :: "js_value host" where
  "ex_host =
     \<lparr>JSON_stringify = (\<lambda>v. case v of JNumber n \<Rightarrow> Returns (number_toString n) | JCircular \<Rightarrow> Throws),
      toString = (\<lambda>v. case v of JNumber n \<Rightarrow> number_toString n | JCircular \<Rightarrow> ''[object Object]'')\<rparr>"

definition ex_schema :: "js_value chunk \<Rightarrow> string option" where
  "ex_schema chunk = (case chunk of Val v \<Rightarrow> None | _ \<Rightarrow> Some ''must be of type object'')"

definition ex_file :: file_config where
  "ex_file = \<lparr>folder = ''output'', keyPattern = ''testfile_$$'', fileType = ''json'', numDigits = 4\<rparr>"

definition ex_config :: "(js_value, string) config" where
  "ex_config =
     \<lparr>file_cfg = ex_file, maxItems = 2, itemValidationSchema = Some ex_schema,
      overwrite = False, lazy = True, append_cfg = False\<rparr>"

definition ex_path :: "nat \<Rightarrow> path" where
  "ex_path n = indexPath ex_config n"

definition ex_append_config :: "(js_value, string) config" where
  "ex_append_config = ex_config\<lparr>append_cfg := True\<rparr>"

text \<open>A folder that holds one finished file with two elements.\<close>

definition ex_disk_resume :: filesystem where
  "ex_disk_resume = fmupd ''output/testfile_0000.json'' (arrayText [''1'', ''2'']) fmempty"

text \<open>An engine is constructed, the chunks are written, and the engine is finalized.\<close>

definition runAll ::
  "'v host \<Rightarrow> ('v, 'e) config \<Rightarrow> filesystem \<Rightarrow> 'v chunk list \<Rightarrow> ('v, 'e) arraystream option" where
  "runAll h args d cs =
     (case constructor args d of
        Some (Inr s) \<Rightarrow> (case writeAll h s cs of Some s' \<Rightarrow> final_private s' | None \<Rightarrow> None)
      | _ \<Rightarrow> None)"

text \<open>What a caller can observe of an engine: the flag, the counts, and the files it has opened with their contents.\<close>

definition fileContents :: "('v, 'e) arraystream \<Rightarrow> (path \<times> string option) list" where
  "fileContents s = map (\<lambda>p. (p, fmlookup (disk s) p)) (getFilePaths s)"

definition observe ::
  "('v, 'e) arraystream \<Rightarrow> bool \<times> nat \<times> nat \<times> (path \<times> string option) list" where
  "observe s = (destroyed s, getCount s, getTotalCount s, fileContents s)"

definition outcome ::
  "('e callback list \<times> ('v, 'e) arraystream) option
     \<Rightarrow> ('e callback list \<times> bool \<times> nat \<times> nat \<times> (path \<times> string option) list) option" where
  "outcome r = map_option (\<lambda>(cbs, s). (cbs, observe s)) r"

text \<open>A fresh lazy engine on an empty folder.\<close>

definition ex_engine :: "(js_value, string) arraystream" where
  "ex_engine = initialState ex_config fmempty"


text \<open>The first call of \<^verbatim>\<open>_write\<close> on a newly constructed engine.\<close>

definition firstWrite ::
  "'v host \<Rightarrow> ('v, 'e) config \<Rightarrow> filesystem \<Rightarrow> 'v chunk
     \<Rightarrow> ('e callback list \<times> ('v, 'e) arraystream) option" where
  "firstWrite h args d c =
     (case constructor args d of Some (Inr s) \<Rightarrow> write_private h s c | _ \<Rightarrow> None)"

definition ex_eager_config :: "(js_value, string) config" where
  "ex_eager_config = ex_config\<lparr>lazy := False\<rparr>"

text \<open>A folder in which the files of index 0 and 1 exist already.\<close>

definition ex_disk_taken :: filesystem where
  "ex_disk_taken =
     fmupd ''output/testfile_0001.json'' (arrayText [''3''])
       (fmupd ''output/testfile_0000.json'' (arrayText [''1'', ''2'']) fmempty)"

text \<open>The lazy engine after \<open>1\<close> has been written to it.\<close>

definition ex_written :: "(js_value, string) arraystream" where
  "ex_written =
     \<lparr>config = ex_config, sep = '','', count = 1, fileCount = 1,
      files = [''output/testfile_0000.json''], key = ''testfile_0000.json'', destroyed = False,
      outstream = Some \<lparr>wpath = ''output/testfile_0000.json'', wpos = 2, wappend = False\<rparr>,
      disk = fmupd ''output/testfile_0000.json'' ''[1'' fmempty,
      itemLog = [''output/testfile_0000.json'']\<rparr>"

text \<open>The lazy engine after \<open>1\<close> has been written to it and it has been finalized.\<close>

definition ex_finalized :: "(js_value, string) arraystream" where
  "ex_finalized =
     \<lparr>config = ex_config, sep = '','', count = 1, fileCount = 1,
      files = [''output/testfile_0000.json''], key = ''testfile_0000.json'', destroyed = True,
      outstream = None, disk = fmupd ''output/testfile_0000.json'' ''[1]\<newline>'' fmempty,
      itemLog = [''output/testfile_0000.json'']\<rparr>"

text \<open>
  The invariant of the counts: the key is current, the count stays within the limit, the
  files opened are distinct and lie below the file index, and the item log consists of a
  full block for each earlier file followed by the items of the current one. The
  open stream, if any, writes the last file of the list.
\<close>

definition counts_inv :: "('v, 'e) arraystream \<Rightarrow> bool" where
  "counts_inv s =
     (key_current s \<and> count s \<le> maxItems (config s) \<and> distinct (files s)
      \<and> (\<forall>p\<in>set (files s). \<exists>i. i < fileCount s \<and> p = indexPath (config s) i)
      \<and> (files s = [] \<longrightarrow> count s = 0)
      \<and> itemLog s =
          concat (map (replicate (maxItems (config s))) (butlast (files s)))
            @ replicate (count s) (last (files s)))"

definition stream_inv :: "('v, 'e) arraystream \<Rightarrow> bool" where
  "stream_inv s =
     (case outstream s of
        Some h \<Rightarrow> files s \<noteq> [] \<and> wpath h = last (files s)
      | None \<Rightarrow> destroyed s \<or> (files s = [] \<and> lazy (config s)))"

definition ready_to_open :: "('v, 'e) arraystream \<Rightarrow> bool" where
  "ready_to_open s =
     (key_current s \<and> count s = 0 \<and> distinct (files s)
      \<and> (\<forall>p\<in>set (files s). \<exists>i. i + 1 < fileCount s \<and> p = indexPath (config s) i)
      \<and> itemLog s = concat (map (replicate (maxItems (config s))) (files s)))"

definition engine_inv :: "('v, 'e) arraystream \<Rightarrow> bool" where
  "engine_inv s = (counts_inv s \<and> stream_inv s)"

section \<open>The items of a run, grouped by file\<close>

text \<open>
  Notions for the proof that files rotate by count. The element texts of a run are
  grouped as the engine distributes them: an item goes to the last group unless this one
  holds \<open>m\<close> items already, in which case the item starts a new group.
\<close>

definition addItem :: "nat \<Rightarrow> 'a \<Rightarrow> 'a list list \<Rightarrow> 'a list list" where
  "addItem m t gs = (if m \<le> length (last gs) then gs @ [[t]] else butlast gs @ [last gs @ [t]])"

definition groupItems :: "nat \<Rightarrow> 'a list list \<Rightarrow> 'a list \<Rightarrow> 'a list list" where
  "groupItems m gs ts = foldl (\<lambda>gs t. addItem m t gs) gs ts"

text \<open>All groups but the last hold \<open>m\<close> items, the last one at most \<open>m\<close>.\<close>

definition grouped :: "nat \<Rightarrow> 'a list list \<Rightarrow> bool" where
  "grouped m gs = (gs \<noteq> [] \<and> (\<forall>g\<in>set (butlast gs). length g = m) \<and> length (last gs) \<le> m)"

text \<open>
  The state of an engine on an initially empty folder that has opened one file for each
  group: the finished files hold the whole array text of their group, the current file
  holds the text of its group without the terminator, the stream stands at its end, and
  there is no other file.
\<close>

definition tracks :: "('v, 'e) config \<Rightarrow> ('v, 'e) arraystream \<Rightarrow> string list list \<Rightarrow> bool" where
  "tracks c s gs =
     (gs \<noteq> [] \<and> config s = c \<and> \<not> destroyed s \<and> key_current s \<and> fileCount s = length gs
      \<and> files s = map (indexPath c) [0..<length gs]
      \<and> count s = length (last gs)
      \<and> sep s = (if last gs = [] then [] else SEPARATOR)
      \<and> outstream s = Some \<lparr>wpath = indexPath c (length gs - 1),
                             wpos = length (arrayOpen (last gs)), wappend = False\<rparr>
      \<and> (\<forall>i<length gs. fmlookup (disk s) (indexPath c i)
             = Some (if Suc i < length gs then arrayText (gs ! i) else arrayOpen (gs ! i)))
      \<and> (\<forall>p. (\<forall>i<length gs. p \<noteq> indexPath c i) \<longrightarrow> fmlookup (disk s) p = None))"

chapter \<open>Auxiliary facts\<close>

section \<open>Key generation is injective\<close>

lemma digit_value_digit: "d < 10 \<Longrightarrow> digit_value (digit d) = d"
  by (simp add: digit_value_def digit_def)

lemma parse_nat_snoc: "parse_nat (cs @ [c]) = 10 * parse_nat cs + digit_value c"
  by (simp add: parse_nat_def)

lemma parse_nat_toString: "parse_nat (number_toString n) = n"
proof (induction n rule: number_toString.induct)
  case (1 n)
  show ?case
  proof (cases "n < 10")
    case True
    then show ?thesis
      by (subst number_toString.simps) (simp add: parse_nat_def digit_value_digit)
  next
    case False
    then have "parse_nat (number_toString (n div 10)) = n div 10"
      using 1 by simp
    with False show ?thesis
      by (subst number_toString.simps) (simp add: parse_nat_snoc digit_value_digit)
  qed
qed

lemma parse_nat_zeros: "parse_nat (replicate k (CHR ''0'') @ cs) = parse_nat cs"
proof -
  have "foldl (\<lambda>a c. 10 * a + digit_value c) 0 (replicate k (CHR ''0'')) = 0"
    by (induction k) (simp_all add: digit_value_def)
  then show ?thesis
    by (simp add: parse_nat_def)
qed

lemma parse_nat_padStart: "parse_nat (padStart w (CHR ''0'') (number_toString n)) = n"
  by (simp add: padStart_def parse_nat_zeros parse_nat_toString)

lemma replace_placeholder_split:
  "has_placeholder p \<Longrightarrow> \<exists>u v. \<forall>r. replace_placeholder p r = u @ r @ v"
proof (induction p rule: has_placeholder.induct)
  case (1 a b cs)
  show ?case
  proof (cases "a = CHR ''$'' \<and> b = CHR ''$''")
    case True
    then have "\<forall>r. replace_placeholder (a # b # cs) r = [] @ r @ cs" by simp
    then show ?thesis by blast
  next
    case False
    with 1 obtain u v where "\<forall>r. replace_placeholder (b # cs) r = u @ r @ v" by auto
    with False have "\<forall>r. replace_placeholder (a # b # cs) r = (a # u) @ r @ v" by auto
    then show ?thesis by blast
  qed
qed simp_all

lemma generateKey_inj:
  assumes "has_placeholder (keyPattern fc)" and "generateKey fc m = generateKey fc n"
  shows "m = n"
proof -
  obtain u v where uv: "\<forall>r. replace_placeholder (keyPattern fc) r = u @ r @ v"
    using replace_placeholder_split [OF assms(1)] by blast
  from assms(2) have "padStart (numDigits fc) (CHR ''0'') (number_toString m)
      = padStart (numDigits fc) (CHR ''0'') (number_toString n)"
    by (simp add: generateKey_def uv)
  then have "parse_nat (padStart (numDigits fc) (CHR ''0'') (number_toString m))
      = parse_nat (padStart (numDigits fc) (CHR ''0'') (number_toString n))"
    by simp
  then show ?thesis by (simp add: parse_nat_padStart)
qed

lemma indexPath_inj:
  assumes "has_placeholder (keyPattern (file_cfg c))" and "indexPath c m = indexPath c n"
  shows "m = n"
proof -
  from assms(2) have "generateKey (file_cfg c) m = generateKey (file_cfg c) n"
    by (simp add: indexPath_def path_join_def)
  with assms(1) show ?thesis
    by (rule generateKey_inj)
qed

lemma free_beyond:
  assumes "has_placeholder (keyPattern (file_cfg c))"
  shows "\<exists>B. \<forall>n\<ge>B. fmlookup d (indexPath c n) = None"
proof -
  have "inj (indexPath c)"
    using assms by (blast intro: injI indexPath_inj)
  then have "finite (indexPath c -` fmdom' d)"
    by (rule finite_vimageI [OF finite_fmdom'])
  then obtain B where B: "\<forall>n\<in>indexPath c -` fmdom' d. n < B"
    unfolding finite_nat_set_iff_bounded by blast
  have "fmlookup d (indexPath c n) = None" if "B \<le> n" for n
  proof (rule fmdom'_notD, rule notI)
    assume "indexPath c n \<in> fmdom' d"
    then have "n \<in> indexPath c -` fmdom' d" by simp
    with B have "n < B" by blast
    with that show False by simp
  qed
  then show ?thesis by blast
qed

section \<open>The search for a free name ends\<close>

lemma getConfig_key_current:
  "key_current s \<Longrightarrow> getConfig s = indexPath (config s) (fileCount s - 1)"
  by (simp add: key_current_def getConfig_def indexPath_def)

lemma key_current_incrementKey [simp]: "key_current (incrementKey s)"
  by (simp add: key_current_def incrementKey_def)

lemma skipExisting_free:
  "fmlookup (disk s) (getConfig s) = None \<Longrightarrow> skipExisting s = Some s"
  by (subst skipExisting.simps) simp

lemma skipExisting_taken:
  "fmlookup (disk s) (getConfig s) \<noteq> None \<Longrightarrow> skipExisting s = skipExisting (incrementKey s)"
  by (subst skipExisting.simps) simp

lemma skipExisting_here:
  assumes "fmlookup (disk s) (getConfig s) = None" and "key_current s"
  shows "\<exists>n\<ge>fileCount s - 1. skipExisting s = Some (setIndex n s)
           \<and> fmlookup (disk s) (indexPath (config s) n) = None
           \<and> (\<forall>j. fileCount s - 1 \<le> j \<and> j < n \<longrightarrow> fmlookup (disk s) (indexPath (config s) j) \<noteq> None)"
proof -
  have "setIndex (fileCount s - 1) s = s"
    using assms(2) by (simp add: setIndex_def key_current_def)
  moreover have "fmlookup (disk s) (indexPath (config s) (fileCount s - 1)) = None"
    using assms by (simp add: getConfig_key_current)
  moreover have "skipExisting s = Some s"
    using assms(1) by (rule skipExisting_free)
  ultimately show ?thesis
    by (intro exI [of _ "fileCount s - 1"]) auto
qed

lemma skipExisting_current:
  assumes "\<forall>n\<ge>B. fmlookup (disk s) (indexPath (config s) n) = None"
    and "key_current s" and "B + 1 - fileCount s = m"
  shows "\<exists>n\<ge>fileCount s - 1. skipExisting s = Some (setIndex n s)
           \<and> fmlookup (disk s) (indexPath (config s) n) = None
           \<and> (\<forall>j. fileCount s - 1 \<le> j \<and> j < n \<longrightarrow> fmlookup (disk s) (indexPath (config s) j) \<noteq> None)"
  using assms
proof (induction m arbitrary: s)
  case 0
  then have "fmlookup (disk s) (getConfig s) = None"
    by (simp add: getConfig_key_current)
  then show ?case
    using 0(2) by (rule skipExisting_here)
next
  case (Suc m)
  show ?case
  proof (cases "fmlookup (disk s) (getConfig s) = None")
    case True
    then show ?thesis
      using Suc.prems(2) by (rule skipExisting_here)
  next
    case False
    let ?t = "incrementKey s"
    have t: "disk ?t = disk s" "config ?t = config s" "fileCount ?t = fileCount s + 1"
      by (simp_all add: incrementKey_def)
    have "B + 1 - fileCount ?t = m"
      using Suc.prems(3) by (simp add: t)
    with Suc.IH [of ?t] Suc.prems(1) obtain n where n: "fileCount s \<le> n"
      "skipExisting ?t = Some (setIndex n ?t)"
      "fmlookup (disk s) (indexPath (config s) n) = None"
      "\<forall>j. fileCount s \<le> j \<and> j < n \<longrightarrow> fmlookup (disk s) (indexPath (config s) j) \<noteq> None"
      by (auto simp: t)
    have same: "setIndex n ?t = setIndex n s"
      by (simp add: setIndex_def incrementKey_def)
    have cur: "fmlookup (disk s) (indexPath (config s) (fileCount s - 1)) \<noteq> None"
      using False Suc.prems(2) by (simp add: getConfig_key_current)
    have all: "\<forall>j. fileCount s - 1 \<le> j \<and> j < n \<longrightarrow> fmlookup (disk s) (indexPath (config s) j) \<noteq> None"
    proof (intro allI impI)
      fix j assume j: "fileCount s - 1 \<le> j \<and> j < n"
      show "fmlookup (disk s) (indexPath (config s) j) \<noteq> None"
      proof (cases "j = fileCount s - 1")
        case True with cur show ?thesis by simp
      next
        case False
        with j have "fileCount s \<le> j \<and> j < n" by arith
        with n(4) show ?thesis by blast
      qed
    qed
    have unfold: "skipExisting s = Some (setIndex n s)"
      using skipExisting_taken [OF False] n(2) same by simp
    have "fileCount s - 1 \<le> n"
      using n(1) by arith
    with unfold n(3) all show ?thesis
      by blast
  qed
qed

lemma skipExisting_total:
  assumes "has_placeholder (keyPattern (file_cfg (config s)))" and "key_current s"
  shows "\<exists>n\<ge>fileCount s - 1. skipExisting s = Some (setIndex n s)
           \<and> fmlookup (disk s) (indexPath (config s) n) = None
           \<and> (\<forall>j. fileCount s - 1 \<le> j \<and> j < n \<longrightarrow> fmlookup (disk s) (indexPath (config s) j) \<noteq> None)"
proof -
  obtain B where "\<forall>n\<ge>B. fmlookup (disk s) (indexPath (config s) n) = None"
    using free_beyond [OF assms(1)] by blast
  then show ?thesis
    using skipExisting_current [OF _ assms(2) refl] by blast
qed

section \<open>Opening a file\<close>

lemma openOverwrite_eq:
  "openOverwrite p s =
     s\<lparr>outstream := Some \<lparr>wpath = p, wpos = 1, wappend = False\<rparr>,
       disk := fmupd p ''['' (disk s), sep := []\<rparr>"
  by (simp add: openOverwrite_def createWriteStream_def stream_write_def)

lemma openOutstream_free:
  "fmlookup (disk s) (getConfig s) = None \<Longrightarrow>
   openOutstream s = Some (openOverwrite (getConfig s) (s\<lparr>files := files s @ [getConfig s]\<rparr>))"
  by (simp add: openOutstream_def skipExisting_free Let_def)

lemma openOutstream_overwrite:
  "overwrite (config s) \<Longrightarrow>
   openOutstream s = Some (openOverwrite (getConfig s) (s\<lparr>files := files s @ [getConfig s]\<rparr>))"
  by (simp add: openOutstream_def Let_def)

lemma openOutstream_append:
  "append_cfg (config s) \<Longrightarrow> \<not> overwrite (config s) \<Longrightarrow>
   fmlookup (disk s) (getConfig s) = Some content \<Longrightarrow>
   openOutstream s = Some (openAppend (getConfig s) content (s\<lparr>files := files s @ [getConfig s]\<rparr>))"
  by (simp add: openOutstream_def Let_def)

lemma SEPARATOR_nonempty [simp]: "SEPARATOR \<noteq> []" "[] \<noteq> SEPARATOR"
  by (simp_all add: SEPARATOR_def)

lemma sep_openAppend:
  "sep (openAppend p content s) = (if useSep content then SEPARATOR else [])"
  by (simp add: openAppend_def Let_def openOverwrite_eq useSep_def)

lemma useSep_iff:
  "useSep content =
     (3 \<le> length content \<and> content ! (length content - 3) \<noteq> CHR ''[''
        \<and> content ! (length content - 3) \<noteq> CHR '','')"
  by (auto simp: useSep_def readSync_def Let_def)

lemma skipExisting_any:
  assumes "has_placeholder (keyPattern (file_cfg (config s)))"
  shows "\<exists>k m. skipExisting s = Some (s\<lparr>key := k, fileCount := m\<rparr>)
           \<and> fmlookup (disk s) (path_join (folder (file_cfg (config s))) k) = None"
proof (cases "fmlookup (disk s) (getConfig s) = None")
  case True
  then have "skipExisting s = Some (s\<lparr>key := key s, fileCount := fileCount s\<rparr>)"
    by (simp add: skipExisting_free)
  with True show ?thesis
    unfolding getConfig_def by blast
next
  case False
  let ?t = "incrementKey s"
  have ph: "has_placeholder (keyPattern (file_cfg (config ?t)))"
    using assms by (simp add: incrementKey_def)
  obtain n where n: "skipExisting ?t = Some (setIndex n ?t)"
      "fmlookup (disk ?t) (indexPath (config ?t) n) = None"
    using skipExisting_total [OF ph key_current_incrementKey] by blast
  have "setIndex n ?t = s\<lparr>key := generateKey (file_cfg (config s)) n, fileCount := n + 1\<rparr>"
    by (simp add: setIndex_def incrementKey_def)
  moreover have "fmlookup (disk s)
      (path_join (folder (file_cfg (config s))) (generateKey (file_cfg (config s)) n)) = None"
    using n(2) by (simp add: incrementKey_def indexPath_def)
  ultimately show ?thesis
    using skipExisting_taken [OF False] n(1) by auto
qed

text \<open>What every way of opening leaves alone, and what it sets.\<close>

lemma openOverwrite_fields [simp]:
  "config (openOverwrite p s) = config s"
  "count (openOverwrite p s) = count s"
  "fileCount (openOverwrite p s) = fileCount s"
  "files (openOverwrite p s) = files s"
  "key (openOverwrite p s) = key s"
  "destroyed (openOverwrite p s) = destroyed s"
  "itemLog (openOverwrite p s) = itemLog s"
  "sep (openOverwrite p s) = []"
  "outstream (openOverwrite p s) = Some \<lparr>wpath = p, wpos = 1, wappend = False\<rparr>"
  "disk (openOverwrite p s) = fmupd p ''['' (disk s)"
  by (simp_all add: openOverwrite_eq)

lemma openAppend_fields [simp]:
  "config (openAppend p content s) = config s"
  "count (openAppend p content s) = count s"
  "fileCount (openAppend p content s) = fileCount s"
  "files (openAppend p content s) = files s"
  "key (openAppend p content s) = key s"
  "destroyed (openAppend p content s) = destroyed s"
  "itemLog (openAppend p content s) = itemLog s"
  by (simp_all add: openAppend_def Let_def)

lemma outstream_openAppend:
  "\<exists>ho. outstream (openAppend p content s) = Some ho \<and> wpath ho = p"
  by (simp add: openAppend_def Let_def)

lemma getConfig_cong:
  "config s' = config s \<Longrightarrow> key s' = key s \<Longrightarrow> getConfig s' = getConfig s"
  by (simp add: getConfig_def)

lemma openOutstream_any:
  assumes "has_placeholder (keyPattern (file_cfg (config s)))"
  shows "\<exists>s'. openOutstream s = Some s' \<and> config s' = config s \<and> count s' = count s
           \<and> destroyed s' = destroyed s \<and> itemLog s' = itemLog s
           \<and> files s' = files s @ [getConfig s']
           \<and> (\<exists>ho. outstream s' = Some ho \<and> wpath ho = getConfig s')"
proof -
  obtain s1 where s1: "(if \<not> append_cfg (config s) \<and> \<not> overwrite (config s) then skipExisting s
            else Some s) = Some s1" and same: "config s1 = config s" "count s1 = count s"
      "destroyed s1 = destroyed s" "itemLog s1 = itemLog s" "files s1 = files s"
  proof (cases "\<not> append_cfg (config s) \<and> \<not> overwrite (config s)")
    case True
    obtain k m where "skipExisting s = Some (s\<lparr>key := k, fileCount := m\<rparr>)"
      using skipExisting_any [OF assms] by blast
    with True that [of "s\<lparr>key := k, fileCount := m\<rparr>"] show ?thesis by simp
  next
    case False
    with that [of s] show ?thesis by auto
  qed
  let ?p = "getConfig s1"
  let ?s2 = "s1\<lparr>files := files s1 @ [?p]\<rparr>"
  define r where "r = (if overwrite (config ?s2) then openOverwrite ?p ?s2
            else (case fmlookup (disk ?s2) ?p of
                    Some content \<Rightarrow> openAppend ?p content ?s2
                  | None \<Rightarrow> openOverwrite ?p ?s2))"
  have open_eq: "openOutstream s = Some r"
    using s1 by (simp add: openOutstream_def Let_def r_def)
  have fields: "config r = config s" "count r = count s" "destroyed r = destroyed s"
    "itemLog r = itemLog s" "files r = files s @ [?p]" "key r = key s1" "config r = config s1"
    using same by (simp_all add: r_def split: option.split)
  then have path: "getConfig r = ?p"
    by (simp add: getConfig_def)
  have "\<exists>ho. outstream r = Some ho \<and> wpath ho = ?p"
  proof (cases "overwrite (config ?s2)")
    case True
    then show ?thesis by (simp add: r_def)
  next
    case False
    show ?thesis
    proof (cases "fmlookup (disk ?s2) ?p")
      case None
      with False show ?thesis by (simp add: r_def)
    next
      case (Some content)
      with False have "r = openAppend ?p content ?s2" by (simp add: r_def)
      then show ?thesis using outstream_openAppend by simp
    qed
  qed
  with open_eq fields(1-5) show ?thesis
    unfolding path [symmetric] by blast
qed

section \<open>Writing to the stream, rotating\<close>

lemma stream_write_fields [simp]:
  "config (stream_write d s) = config s"
  "count (stream_write d s) = count s"
  "fileCount (stream_write d s) = fileCount s"
  "files (stream_write d s) = files s"
  "key (stream_write d s) = key s"
  "destroyed (stream_write d s) = destroyed s"
  "itemLog (stream_write d s) = itemLog s"
  "sep (stream_write d s) = sep s"
  by (simp_all add: stream_write_def Let_def split: option.split)

lemma stream_write_None [simp]: "outstream s = None \<Longrightarrow> stream_write d s = s"
  by (simp add: stream_write_def)

lemma writeItem_fields [simp]:
  "config (writeItem t s) = config s"
  "count (writeItem t s) = count s + 1"
  "fileCount (writeItem t s) = fileCount s"
  "files (writeItem t s) = files s"
  "key (writeItem t s) = key s"
  "destroyed (writeItem t s) = destroyed s"
  "itemLog (writeItem t s) = itemLog s @ (case outstream s of Some h \<Rightarrow> [wpath h] | None \<Rightarrow> [])"
  "sep (writeItem t s) = (if sep s = [] then SEPARATOR else sep s)"
  by (simp_all add: writeItem_def Let_def incrementCount_def)

lemma resetOutstream_final:
  "resetOutstream True s =
     Some ((case outstream s of Some h \<Rightarrow> stream_write terminator s | None \<Rightarrow> s)\<lparr>outstream := None\<rparr>)"
  by (simp add: resetOutstream_def)

lemma resetOutstream_any:
  assumes "has_placeholder (keyPattern (file_cfg (config s)))"
  shows "\<exists>s'. resetOutstream False s = Some s' \<and> config s' = config s \<and> count s' = 0
           \<and> destroyed s' = destroyed s \<and> itemLog s' = itemLog s
           \<and> files s' = files s @ [getConfig s']
           \<and> (\<exists>ho. outstream s' = Some ho \<and> wpath ho = getConfig s')"
proof -
  define s1 where "s1 = (case outstream s of Some h \<Rightarrow> stream_write terminator s | None \<Rightarrow> s)"
  define s2 where "s2 = incrementKey (resetCount s1)"
  have s1: "config s1 = config s" "destroyed s1 = destroyed s" "itemLog s1 = itemLog s"
    "files s1 = files s"
    by (simp_all add: s1_def split: option.split)
  then have s2: "config s2 = config s" "destroyed s2 = destroyed s" "itemLog s2 = itemLog s"
    "files s2 = files s" "count s2 = 0"
    by (simp_all add: s2_def incrementKey_def resetCount_def)
  have "resetOutstream False s = openOutstream s2"
    by (simp add: resetOutstream_def s1_def s2_def)
  moreover have "has_placeholder (keyPattern (file_cfg (config s2)))"
    using assms s2 by simp
  ultimately show ?thesis
    using openOutstream_any [of s2] s2 by auto
qed

section \<open>The branches of a write\<close>

lemma write_private_invalid:
  assumes "lazyOpen s = Some s1"
    and "itemValidationSchema (config s1) = Some schema" and "validateChunk schema chunk = Some err"
  shows "write_private h s chunk =
           Some ((if destroyed s then [CbOk] else []) @ [CbErr (ValidationError err)], s1)"
  using assms by (simp add: write_private_def lazyOpen_def)

lemma write_private_rotate:
  assumes "lazyOpen s = Some s1" and "passesValidation (config s1) chunk"
    and "convertChunk h chunk = (cb1, t)"
    and "maxItems (config s1) \<le> count s1" and "resetOutstream False s1 = Some s2"
  shows "write_private h s chunk =
           Some ((if destroyed s then [CbOk] else []) @ cb1 @ [CbOk], writeItem t s2)"
  using assms
  by (simp add: write_private_def lazyOpen_def passesValidation_def split: option.splits)

lemma write_private_plain:
  assumes "lazyOpen s = Some s1" and "passesValidation (config s1) chunk"
    and "convertChunk h chunk = (cb1, t)"
    and "count s1 < maxItems (config s1)" and "outstream s1 \<noteq> None"
  shows "write_private h s chunk =
           Some ((if destroyed s then [CbOk] else []) @ cb1 @ [CbOk], writeItem t s1)"
  using assms
  by (simp add: write_private_def lazyOpen_def passesValidation_def split: option.splits)

lemma write_private_null:
  assumes "lazyOpen s = Some s1" and "passesValidation (config s1) chunk"
    and "convertChunk h chunk = (cb1, t)"
    and "count s1 < maxItems (config s1)" and "outstream s1 = None"
  shows "write_private h s chunk =
           Some ((if destroyed s then [CbOk] else []) @ cb1 @ [CbErr WriteError], s1)"
  using assms
  by (simp add: write_private_def lazyOpen_def passesValidation_def split: option.splits)

lemma lazyOpen_any:
  assumes "has_placeholder (keyPattern (file_cfg (config s)))"
  shows "\<exists>s1. lazyOpen s = Some s1 \<and> config s1 = config s \<and> count s1 = count s
           \<and> destroyed s1 = destroyed s \<and> itemLog s1 = itemLog s"
  using openOutstream_any [OF assms] by (auto simp: lazyOpen_def)

lemma not_passes_iff:
  "(\<not> passesValidation c chunk) =
     (\<exists>schema err. itemValidationSchema c = Some schema \<and> validateChunk schema chunk = Some err)"
  by (auto simp: passesValidation_def split: option.splits)

lemma write_private_total:
  fixes s :: "('v, 'e) arraystream"
  assumes "has_placeholder (keyPattern (file_cfg (config s)))"
  shows "\<exists>cbs s'. write_private h s chunk = Some ((if destroyed s then [CbOk] else []) @ cbs, s')
           \<and> config s' = config s \<and> destroyed s' = destroyed s"
proof -
  obtain s1 where s1: "lazyOpen s = Some s1" "config s1 = config s" "destroyed s1 = destroyed s"
    using lazyOpen_any [OF assms] by blast
  show ?thesis
  proof (cases "passesValidation (config s1) chunk")
    case False
    then obtain schema err where "itemValidationSchema (config s1) = Some schema"
        "validateChunk schema chunk = Some err"
      unfolding not_passes_iff by blast
    from write_private_invalid [OF s1(1) this] s1 show ?thesis by blast
  next
    case True
    obtain cb1 :: "'e callback list" and t where conv: "convertChunk h chunk = (cb1, t)"
      by (cases "convertChunk h chunk :: 'e callback list \<times> string")
    show ?thesis
    proof (cases "maxItems (config s1) \<le> count s1")
      case rot: True
      have "has_placeholder (keyPattern (file_cfg (config s1)))"
        using assms s1 by simp
      then obtain s2 where s2: "resetOutstream False s1 = Some s2" "config s2 = config s1"
          "destroyed s2 = destroyed s1"
        using resetOutstream_any by blast
      from write_private_rotate [OF s1(1) True conv rot s2(1)] s1 s2 show ?thesis
        by (intro exI [of _ "cb1 @ [CbOk]"] exI [of _ "writeItem t s2"]) simp
    next
      case norot: False
      show ?thesis
      proof (cases "outstream s1 = None")
        case True
        with write_private_null [OF s1(1) \<open>passesValidation (config s1) chunk\<close> conv] norot s1
        show ?thesis by (intro exI [of _ "cb1 @ [CbErr WriteError]"] exI [of _ s1]) simp
      next
        case False
        with write_private_plain [OF s1(1) \<open>passesValidation (config s1) chunk\<close> conv] norot s1
        show ?thesis by (intro exI [of _ "cb1 @ [CbOk]"] exI [of _ "writeItem t s1"]) simp
      qed
    qed
  qed
qed

lemma openOutstream_default:
  assumes "\<not> append_cfg (config s)" and "\<not> overwrite (config s)"
    and "has_placeholder (keyPattern (file_cfg (config s)))" and "key_current s"
  shows "\<exists>n\<ge>fileCount s - 1.
           openOutstream s =
             Some (openOverwrite (indexPath (config s) n)
                    ((setIndex n s)\<lparr>files := files s @ [indexPath (config s) n]\<rparr>))
           \<and> fmlookup (disk s) (indexPath (config s) n) = None
           \<and> (\<forall>j. fileCount s - 1 \<le> j \<and> j < n \<longrightarrow> fmlookup (disk s) (indexPath (config s) j) \<noteq> None)"
proof -
  obtain n where n: "fileCount s - 1 \<le> n" "skipExisting s = Some (setIndex n s)"
      "fmlookup (disk s) (indexPath (config s) n) = None"
      "\<forall>j. fileCount s - 1 \<le> j \<and> j < n \<longrightarrow> fmlookup (disk s) (indexPath (config s) j) \<noteq> None"
    using skipExisting_total [OF assms(3,4)] by blast
  have path: "getConfig (setIndex n s) = indexPath (config s) n"
    by (simp add: setIndex_def getConfig_def indexPath_def)
  have "openOutstream s =
      Some (openOverwrite (indexPath (config s) n)
             ((setIndex n s)\<lparr>files := files s @ [indexPath (config s) n]\<rparr>))"
    using assms(1,2) n(2,3) by (simp add: openOutstream_def path Let_def) (simp add: setIndex_def)
  with n show ?thesis by blast
qed

section \<open>The concrete engine, evaluated\<close>

lemma ex_trim: "trimKeyPattern ex_file = ex_file"
  by code_simp

lemma ex_key0: "generateKey ex_file 0 = ''testfile_0000.json''"
  by code_simp

lemma ex_folder: "folder ex_file = ''output''"
  by (simp add: ex_file_def)

lemma ex_one: "number_toString (Suc 0) = ''1''"
  by code_simp

lemma ex_constructed: "constructor ex_config fmempty = Some (Inr ex_engine)"
  by (simp add: constructor_def ex_engine_def ex_config_def ex_trim)

lemma ex_write_one: "writeAll ex_host ex_engine [Val (JNumber 1)] = Some ex_written"
  by (simp add: ex_engine_def initialState_def incrementKey_def ex_config_def ex_key0
      write_private_def lazyOpen_def openOutstream_def skipExisting_free getConfig_def path_join_def
      openOverwrite_eq ex_schema_def validateChunk_def convertChunk_def ex_host_def ex_one
      writeItem_def stream_write_def incrementCount_def SEPARATOR_def ex_written_def ex_folder
      Let_def)

lemma ex_final: "final_private ex_written = Some ex_finalized"
  by (simp add: final_private_def flushOutstream_def resetOutstream_def stream_write_def
      terminator_def ex_written_def ex_finalized_def Let_def)

lemma ex_run_finalized: "runAll ex_host ex_config fmempty [Val (JNumber 1)] = Some ex_finalized"
  by (simp only: runAll_def ex_constructed ex_write_one ex_final option.case sum.case)

section \<open>A write that finds the stream open\<close>

lemma lazyOpen_idem:
  assumes "lazyOpen s = Some s1"
  shows "lazyOpen s1 = Some s1"
proof (cases "lazy (config s) \<and> outstream s = None")
  case True
  with assms have "openOutstream s = Some s1" by (simp add: lazyOpen_def)
  then have "outstream s1 \<noteq> None"
    by (auto simp: openOutstream_def Let_def openAppend_def split: option.splits if_splits)
  then show ?thesis by (auto simp: lazyOpen_def)
next
  case False
  with assms have "s1 = s" by (auto simp: lazyOpen_def)
  with False show ?thesis by (auto simp: lazyOpen_def)
qed

lemma write_private_after_lazyOpen:
  assumes "lazyOpen s = Some s1" and "destroyed s1 = destroyed s"
  shows "write_private h s1 chunk = write_private h s chunk"
  using assms lazyOpen_idem [OF assms(1)] by (simp add: write_private_def)

section \<open>Construction and the first opening\<close>

lemma passesValidation_cong:
  "itemValidationSchema c' = itemValidationSchema c \<Longrightarrow> passesValidation c' = passesValidation c"
  by (auto simp: passesValidation_def fun_eq_iff)

lemma lazyOpen_open: "outstream s \<noteq> None \<Longrightarrow> lazyOpen s = Some s"
  by (auto simp: lazyOpen_def)

lemma writeAll_invalid:
  assumes "outstream s \<noteq> None" and "\<not> destroyed s"
    and "\<forall>c\<in>set cs. \<not> passesValidation (config s) c"
  shows "writeAll h s cs = Some s"
  using assms(3)
proof (induction cs)
  case Nil
  then show ?case by simp
next
  case (Cons c cs)
  then obtain schema err where "itemValidationSchema (config s) = Some schema"
      "validateChunk schema c = Some err"
    unfolding not_passes_iff by auto
  moreover have "lazyOpen s = Some s"
    using assms(1) by (rule lazyOpen_open)
  ultimately have "write_private h s c = Some ([CbErr (ValidationError err)], s)"
    using write_private_invalid [of s s schema c err h] assms(2) by simp
  with Cons show ?case by simp
qed

lemma initialState_fields:
  "config (initialState cfg d) = cfg" "sep (initialState cfg d) = []"
  "count (initialState cfg d) = 0" "fileCount (initialState cfg d) = 1"
  "files (initialState cfg d) = []" "\<not> destroyed (initialState cfg d)"
  "outstream (initialState cfg d) = None" "disk (initialState cfg d) = d"
  "itemLog (initialState cfg d) = []" "key_current (initialState cfg d)"
  "getConfig (initialState cfg d) = indexPath cfg 0"
  by (simp_all add: initialState_def incrementKey_def key_current_def getConfig_def indexPath_def)

lemma setIndex_current: "key_current s \<Longrightarrow> setIndex (fileCount s - 1) s = s"
  by (simp add: setIndex_def key_current_def)

text \<open>Every way of opening but the resumption of an existing file starts a new file.\<close>

lemma openOutstream_creates:
  assumes "has_placeholder (keyPattern (file_cfg (config s)))" and "key_current s"
    and "append_cfg (config s) \<and> \<not> overwrite (config s) \<longrightarrow> fmlookup (disk s) (getConfig s) = None"
  shows "\<exists>n\<ge>fileCount s - 1.
           openOutstream s =
             Some (openOverwrite (indexPath (config s) n)
                    ((setIndex n s)\<lparr>files := files s @ [indexPath (config s) n]\<rparr>))
           \<and> (\<not> overwrite (config s) \<longrightarrow> fmlookup (disk s) (indexPath (config s) n) = None)"
proof (cases "\<not> append_cfg (config s) \<and> \<not> overwrite (config s)")
  case True
  then show ?thesis
    using openOutstream_default [OF _ _ assms(1,2)] by blast
next
  case False
  let ?n = "fileCount s - 1"
  have p: "getConfig s = indexPath (config s) ?n"
    using assms(2) by (rule getConfig_key_current)
  have "openOutstream s = Some (openOverwrite (getConfig s) (s\<lparr>files := files s @ [getConfig s]\<rparr>))"
  proof (cases "overwrite (config s)")
    case True
    then show ?thesis by (rule openOutstream_overwrite)
  next
    case no: False
    with False assms(3) have "fmlookup (disk s) (getConfig s) = None" by blast
    then show ?thesis by (rule openOutstream_free)
  qed
  moreover have "\<not> overwrite (config s) \<longrightarrow> fmlookup (disk s) (indexPath (config s) ?n) = None"
    using False assms(3) p by auto
  ultimately show ?thesis
    unfolding p using setIndex_current [OF assms(2)] by (intro exI [of _ ?n]) simp
qed

lemma constructor_lazy:
  assumes "constructor args d = Some (Inr s)" and "lazy args"
  shows "s = initialState (args\<lparr>file_cfg := trimKeyPattern (file_cfg args)\<rparr>) d"
  using assms by (auto simp: constructor_def Let_def split: if_splits)

section \<open>Array texts\<close>

lemma joinElements_snoc:
  "es \<noteq> [] \<Longrightarrow> joinElements (es @ [t]) = joinElements es @ SEPARATOR @ t"
  by (induction es rule: joinElements.induct) simp_all

lemma arrayOpen_snoc:
  "arrayOpen (es @ [t]) = arrayOpen es @ (if es = [] then [] else SEPARATOR) @ t"
  by (simp add: arrayOpen_def joinElements_snoc)

lemma joinElements_last:
  "es \<noteq> [] \<Longrightarrow> last es \<noteq> [] \<Longrightarrow>
   joinElements es \<noteq> [] \<and> last (joinElements es) = last (last es)"
  by (induction es rule: joinElements.induct) auto

lemma length_terminator [simp]: "length terminator = 2"
  by (simp add: terminator_def)

lemma length_arrayText: "length (arrayText es) = length (arrayOpen es) + 2"
  by (simp add: arrayText_def)

lemma length_arrayOpen: "length (arrayOpen es) = Suc (length (joinElements es))"
  by (simp add: arrayOpen_def)

lemma useSep_arrayText:
  assumes "es \<noteq> [] \<longrightarrow> last es \<noteq> [] \<and> last (last es) \<noteq> CHR ''['' \<and> last (last es) \<noteq> CHR '',''"
  shows "useSep (arrayText es) = (es \<noteq> [])"
proof (cases "es = []")
  case True
  then show ?thesis
    by (simp add: useSep_iff arrayText_def arrayOpen_def terminator_def)
next
  case False
  with assms have j: "joinElements es \<noteq> []" "last (joinElements es) = last (last es)"
    using joinElements_last by blast+
  have "arrayText es ! (length (arrayText es) - 3) = last (joinElements es)"
    using j(1) by (simp add: arrayText_def arrayOpen_def nth_append last_conv_nth)
  with False assms j show ?thesis
    by (simp add: useSep_iff length_arrayText length_arrayOpen)
qed

section \<open>Writes through the stream\<close>

lemma disk_stream_write:
  "outstream s = Some \<lparr>wpath = p, wpos = n, wappend = False\<rparr> \<Longrightarrow>
   fmlookup (disk s) p = Some old \<Longrightarrow>
   disk (stream_write d s) = fmupd p (take n old @ d @ drop (n + length d) old) (disk s)"
  by (simp add: stream_write_def)

lemma outstream_stream_write:
  "outstream s = Some \<lparr>wpath = p, wpos = n, wappend = ap\<rparr> \<Longrightarrow>
   outstream (stream_write d s) = Some \<lparr>wpath = p, wpos = n + length d, wappend = ap\<rparr>"
  by (simp add: stream_write_def Let_def)

lemma writeItem_disk: "disk (writeItem t s) = disk (stream_write (sep s @ t) s)"
  by (simp add: writeItem_def Let_def incrementCount_def)

lemma writeItem_outstream: "outstream (writeItem t s) = outstream (stream_write (sep s @ t) s)"
  by (simp add: writeItem_def Let_def incrementCount_def)

lemma convertChunk_encode: "encode h chunk = Some t \<Longrightarrow> convertChunk h chunk = ([], t)"
  by (auto simp: encode_def convertChunk_def split: chunk.splits stringify_result.splits)

lemma final_private_open:
  assumes "\<not> destroyed s"
  shows "final_private s =
     Some ((case outstream s of Some h \<Rightarrow> stream_write terminator (s\<lparr>destroyed := True\<rparr>)
             | None \<Rightarrow> s\<lparr>destroyed := True\<rparr>)\<lparr>outstream := None\<rparr>)"
  using assms by (simp add: final_private_def flushOutstream_def resetOutstream_final)


section \<open>What a search that returns has changed\<close>

lemma skipExisting_result:
  assumes "skipExisting s = Some s'"
  shows "\<exists>k m. s' = s\<lparr>key := k, fileCount := m\<rparr>"
proof -
  have step: "\<exists>k m. y = x\<lparr>key := k, fileCount := m\<rparr>"
    if IH: "\<And>x y. f x = Some y \<Longrightarrow> \<exists>k m. y = x\<lparr>key := k, fileCount := m\<rparr>"
      and eq: "(if fmlookup (disk x) (getConfig x) \<noteq> None then f (incrementKey x) else Some x) = Some y"
    for f and x y :: "('a, 'b) arraystream"
  proof (cases "fmlookup (disk x) (getConfig x) \<noteq> None")
    case True
    with eq have "f (incrementKey x) = Some y" by simp
    then obtain k m where "y = (incrementKey x)\<lparr>key := k, fileCount := m\<rparr>"
      using IH by blast
    then have "y = x\<lparr>key := k, fileCount := m\<rparr>"
      by (simp add: incrementKey_def)
    then show ?thesis by blast
  next
    case False
    with eq have "y = x\<lparr>key := key x, fileCount := fileCount x\<rparr>" by simp
    then show ?thesis by blast
  qed
  show ?thesis
    by (rule skipExisting.raw_induct
          [where P = "\<lambda>x y. \<exists>k m. y = x\<lparr>key := k, fileCount := m\<rparr>", OF step assms])
qed

lemma openOutstream_keeps:
  assumes "openOutstream s = Some s'"
  shows "config s' = config s \<and> destroyed s' = destroyed s"
proof -
  obtain s1 where s1: "(if \<not> append_cfg (config s) \<and> \<not> overwrite (config s) then skipExisting s
            else Some s) = Some s1"
    using assms by (auto simp: openOutstream_def split: option.splits)
  then have "config s1 = config s \<and> destroyed s1 = destroyed s"
    using skipExisting_result [of s s1] by (auto split: if_splits)
  moreover have "config s' = config s1 \<and> destroyed s' = destroyed s1"
    using assms s1 by (auto simp: openOutstream_def Let_def split: option.splits if_splits)
  ultimately show ?thesis by simp
qed

lemma resetOutstream_keeps:
  assumes "resetOutstream final s = Some s'"
  shows "config s' = config s \<and> destroyed s' = destroyed s"
proof (cases final)
  case True
  with assms show ?thesis
    by (auto simp: resetOutstream_final split: option.splits)
next
  case False
  define s1 where "s1 = incrementKey (resetCount
      (case outstream s of Some h \<Rightarrow> stream_write terminator s | None \<Rightarrow> s))"
  have "config s1 = config s" "destroyed s1 = destroyed s"
    by (simp_all add: s1_def incrementKey_def resetCount_def split: option.split)
  moreover have "openOutstream s1 = Some s'"
    using assms False by (simp add: resetOutstream_def s1_def)
  ultimately show ?thesis
    using openOutstream_keeps [of s1 s'] by simp
qed

lemma lazyOpen_keeps:
  "lazyOpen s = Some s1 \<Longrightarrow> config s1 = config s \<and> destroyed s1 = destroyed s"
  using openOutstream_keeps [of s s1] by (auto simp: lazyOpen_def split: if_splits)

lemma write_private_keeps:
  assumes "write_private h s chunk = Some (cbs, s')"
  shows "config s' = config s \<and> destroyed s' = destroyed s"
proof -
  obtain s1 where s1: "lazyOpen s = Some s1"
    using assms by (auto simp: write_private_def Let_def split: option.splits)
  note k1 = lazyOpen_keeps [OF s1]
  have "s' = s1 \<or> (\<exists>t. s' = writeItem t s1)
        \<or> (\<exists>t s2. resetOutstream False s1 = Some s2 \<and> s' = writeItem t s2)"
    using assms s1
    by (auto simp: write_private_def Let_def split: option.splits if_splits prod.splits)
  then show ?thesis
    using k1 resetOutstream_keeps [of False s1] by auto
qed

lemma final_private_keeps:
  "final_private s = Some s' \<Longrightarrow> config s' = config s"
  using resetOutstream_keeps [of True "s\<lparr>destroyed := True\<rparr>" s']
  by (auto simp: final_private_def flushOutstream_def split: if_splits)


section \<open>The invariant of the counts\<close>

lemma openOutstream_index:
  assumes "has_placeholder (keyPattern (file_cfg (config s)))" and "key_current s"
  shows "\<exists>n s'. fileCount s - 1 \<le> n \<and> openOutstream s = Some s' \<and> config s' = config s
           \<and> count s' = count s \<and> destroyed s' = destroyed s \<and> itemLog s' = itemLog s
           \<and> files s' = files s @ [indexPath (config s) n] \<and> fileCount s' = n + 1
           \<and> key_current s'
           \<and> (\<exists>ho. outstream s' = Some ho \<and> wpath ho = indexPath (config s) n)"
proof (cases "\<not> append_cfg (config s) \<and> \<not> overwrite (config s)")
  case True
  then obtain n where n: "fileCount s - 1 \<le> n"
      "openOutstream s =
         Some (openOverwrite (indexPath (config s) n)
                ((setIndex n s)\<lparr>files := files s @ [indexPath (config s) n]\<rparr>))"
    using openOutstream_default [OF _ _ assms] by blast
  show ?thesis
    by (intro exI [of _ n] exI [of _ "openOverwrite (indexPath (config s) n)
                ((setIndex n s)\<lparr>files := files s @ [indexPath (config s) n]\<rparr>)"])
      (use n(1) in \<open>simp add: n(2) setIndex_def key_current_def\<close>)
next
  case False
  let ?n = "fileCount s - 1"
  let ?p = "indexPath (config s) ?n"
  let ?s2 = "s\<lparr>files := files s @ [?p]\<rparr>"
  have p: "getConfig s = ?p"
    using assms(2) by (rule getConfig_key_current)
  have fc: "fileCount s = ?n + 1"
    using assms(2) by (simp add: key_current_def)
  have "\<exists>s'. openOutstream s = Some s'
          \<and> (s' = openOverwrite ?p ?s2 \<or> (\<exists>content. s' = openAppend ?p content ?s2))"
  proof (cases "overwrite (config s)")
    case True
    then show ?thesis
      using openOutstream_overwrite [of s] by (simp add: p)
  next
    case no: False
    with False have ap: "append_cfg (config s)" by simp
    show ?thesis
    proof (cases "fmlookup (disk s) (getConfig s)")
      case None
      then show ?thesis
        using openOutstream_free [of s] by (simp add: p)
    next
      case (Some content)
      then show ?thesis
        using openOutstream_append [OF ap no, of content] by (auto simp: p)
    qed
  qed
  then obtain s' where s': "openOutstream s = Some s'"
      "s' = openOverwrite ?p ?s2 \<or> (\<exists>content. s' = openAppend ?p content ?s2)"
    by blast
  have kc: "key_current s'"
    using s'(2) assms(2) by (auto simp: key_current_def)
  have out: "\<exists>ho. outstream s' = Some ho \<and> wpath ho = ?p"
    using s'(2) outstream_openAppend by auto
  have "config s' = config s" "count s' = count s" "destroyed s' = destroyed s"
    "itemLog s' = itemLog s" "files s' = files s @ [?p]" "fileCount s' = ?n + 1"
    using s'(2) fc by auto
  with s'(1) kc out show ?thesis
    by (intro exI [of _ ?n] exI [of _ s']) simp
qed

lemma ready_to_open_opens:
  assumes "ready_to_open s" and "has_placeholder (keyPattern (file_cfg (config s)))"
  shows "\<exists>s'. openOutstream s = Some s' \<and> engine_inv s' \<and> count s' = 0 \<and> outstream s' \<noteq> None"
proof -
  have r: "key_current s" "count s = 0" "distinct (files s)"
      "\<forall>p\<in>set (files s). \<exists>i. i + 1 < fileCount s \<and> p = indexPath (config s) i"
      "itemLog s = concat (map (replicate (maxItems (config s))) (files s))"
    using assms(1) by (simp_all add: ready_to_open_def)
  obtain n s' where o: "fileCount s - 1 \<le> n" "openOutstream s = Some s'" "config s' = config s"
      "count s' = count s" "itemLog s' = itemLog s"
      "files s' = files s @ [indexPath (config s) n]" "fileCount s' = n + 1" "key_current s'"
      and "\<exists>ho. outstream s' = Some ho \<and> wpath ho = indexPath (config s) n"
    using openOutstream_index [OF assms(2) r(1)] by blast
  then obtain ho where out: "outstream s' = Some ho" "wpath ho = indexPath (config s) n"
    by blast
  have fresh: "indexPath (config s) n \<notin> set (files s)"
  proof
    assume "indexPath (config s) n \<in> set (files s)"
    then obtain i where "i + 1 < fileCount s" "indexPath (config s) n = indexPath (config s) i"
      using r(4) by blast
    with indexPath_inj [OF assms(2)] o(1) show False by fastforce
  qed
  have bound: "\<forall>p\<in>set (files s'). \<exists>i. i < fileCount s' \<and> p = indexPath (config s') i"
  proof
    fix p assume "p \<in> set (files s')"
    then consider "p \<in> set (files s)" | "p = indexPath (config s) n"
      by (auto simp: o(6))
    then show "\<exists>i. i < fileCount s' \<and> p = indexPath (config s') i"
    proof cases
      case 1
      then obtain i where "i + 1 < fileCount s" "p = indexPath (config s) i"
        using r(4) by blast
      with o(1) show ?thesis by (intro exI [of _ i]) (simp add: o(3,7))
    next
      case 2
      then show ?thesis by (intro exI [of _ n]) (simp add: o(3,7))
    qed
  qed
  have "counts_inv s'"
    unfolding counts_inv_def using o(8) bound r(2,3,5) fresh
    by (simp add: o(3-6))
  moreover have "stream_inv s'"
    by (simp add: stream_inv_def out o(6))
  ultimately show ?thesis
    using o(2,4) r(2) out by (simp add: engine_inv_def)
qed


lemma stream_write_outstream:
  "outstream s = Some h \<Longrightarrow>
   \<exists>ho. outstream (stream_write d s) = Some ho \<and> wpath ho = wpath h"
  by (cases h) (simp add: stream_write_def Let_def)

lemma engine_inv_rotate:
  assumes "engine_inv s" and "maxItems (config s) \<le> count s" and "outstream s \<noteq> None"
    and "has_placeholder (keyPattern (file_cfg (config s)))"
  shows "\<exists>s'. resetOutstream False s = Some s' \<and> engine_inv s' \<and> count s' = 0
           \<and> outstream s' \<noteq> None"
proof -
  obtain h where h: "outstream s = Some h"
    using assms(3) by blast
  have inv: "key_current s" "count s \<le> maxItems (config s)" "distinct (files s)"
      "\<forall>p\<in>set (files s). \<exists>i. i < fileCount s \<and> p = indexPath (config s) i"
      "itemLog s = concat (map (replicate (maxItems (config s))) (butlast (files s)))
            @ replicate (count s) (last (files s))"
    using assms(1) by (simp_all add: engine_inv_def counts_inv_def)
  have ne: "files s \<noteq> []"
    using assms(1) h by (simp add: engine_inv_def stream_inv_def)
  have full: "count s = maxItems (config s)"
    using inv(2) assms(2) by simp
  define s1 where "s1 = incrementKey (resetCount (stream_write terminator s))"
  have s1: "config s1 = config s" "files s1 = files s" "itemLog s1 = itemLog s" "count s1 = 0"
      "fileCount s1 = fileCount s + 1" "key_current s1"
    by (simp_all add: s1_def incrementKey_def resetCount_def key_current_def)
  have "concat (map (replicate (maxItems (config s))) (butlast (files s)))
            @ replicate (maxItems (config s)) (last (files s))
        = concat (map (replicate (maxItems (config s))) (butlast (files s) @ [last (files s)]))"
    by simp
  also have "\<dots> = concat (map (replicate (maxItems (config s))) (files s))"
    using ne by simp
  finally have log: "itemLog s1 = concat (map (replicate (maxItems (config s1))) (files s1))"
    using inv(5) by (simp add: s1 full)
  have "\<forall>p\<in>set (files s1). \<exists>i. i + 1 < fileCount s1 \<and> p = indexPath (config s1) i"
    using inv(4) by (simp add: s1)
  with s1 log inv(3) have "ready_to_open s1"
    by (simp add: ready_to_open_def)
  moreover have "resetOutstream False s = openOutstream s1"
    by (simp add: resetOutstream_def s1_def h)
  ultimately show ?thesis
    using ready_to_open_opens [of s1] assms(4) by (simp add: s1)
qed

lemma engine_inv_writeItem:
  assumes "engine_inv s" and "count s < maxItems (config s)" and "outstream s \<noteq> None"
  shows "engine_inv (writeItem t s)"
proof -
  obtain h where h: "outstream s = Some h" "files s \<noteq> []" "wpath h = last (files s)"
    using assms(1,3) by (auto simp: engine_inv_def stream_inv_def)
  have inv: "key_current s" "distinct (files s)"
      "\<forall>p\<in>set (files s). \<exists>i. i < fileCount s \<and> p = indexPath (config s) i"
      "itemLog s = concat (map (replicate (maxItems (config s))) (butlast (files s)))
            @ replicate (count s) (last (files s))"
    using assms(1) by (simp_all add: engine_inv_def counts_inv_def)
  have "key_current (writeItem t s)"
    using inv(1) by (simp add: key_current_def)
  moreover have "itemLog (writeItem t s) =
      concat (map (replicate (maxItems (config s))) (butlast (files s)))
            @ replicate (count s + 1) (last (files s))"
    using inv(4) h by (simp add: replicate_append_same)
  ultimately have "counts_inv (writeItem t s)"
    unfolding counts_inv_def using assms(2) inv(2,3) h(2) by simp
  moreover obtain ho where "outstream (writeItem t s) = Some ho" "wpath ho = wpath h"
    using stream_write_outstream [OF h(1)] unfolding writeItem_outstream by blast
  then have "stream_inv (writeItem t s)"
    using h by (simp add: stream_inv_def)
  ultimately show ?thesis
    by (simp add: engine_inv_def)
qed

lemma engine_inv_lazyOpen:
  assumes "engine_inv s" and "\<not> destroyed s"
    and "has_placeholder (keyPattern (file_cfg (config s)))"
  shows "\<exists>s1. lazyOpen s = Some s1 \<and> engine_inv s1 \<and> outstream s1 \<noteq> None"
proof (cases "outstream s = None")
  case False
  with assms(1) show ?thesis
    by (simp add: lazyOpen_open)
next
  case True
  with assms(1,2) have lz: "files s = []" "lazy (config s)"
    by (simp_all add: engine_inv_def stream_inv_def)
  with assms(1) have "ready_to_open s"
    by (simp add: engine_inv_def counts_inv_def ready_to_open_def)
  then obtain s1 where "openOutstream s = Some s1" "engine_inv s1" "outstream s1 \<noteq> None"
    using ready_to_open_opens assms(3) by blast
  with True lz show ?thesis
    by (simp add: lazyOpen_def)
qed

lemma engine_inv_write:
  fixes s :: "('v, 'e) arraystream"
  assumes "engine_inv s" and "\<not> destroyed s"
    and "has_placeholder (keyPattern (file_cfg (config s)))" and "1 \<le> maxItems (config s)"
    and "write_private h s chunk = Some (cbs, s')"
  shows "engine_inv s'"
proof -
  obtain s1 where s1: "lazyOpen s = Some s1" "engine_inv s1" "outstream s1 \<noteq> None"
    using engine_inv_lazyOpen [OF assms(1-3)] by blast
  have cfg: "config s1 = config s"
    using lazyOpen_keeps [OF s1(1)] by simp
  show ?thesis
  proof (cases "passesValidation (config s1) chunk")
    case False
    then obtain schema err where "itemValidationSchema (config s1) = Some schema"
        "validateChunk schema chunk = Some err"
      unfolding not_passes_iff by blast
    from write_private_invalid [OF s1(1) this, of h] assms(5) s1(2) show ?thesis by simp
  next
    case True
    obtain cb1 :: "'e callback list" and t where conv: "convertChunk h chunk = (cb1, t)"
      by (cases "convertChunk h chunk :: 'e callback list \<times> string")
    show ?thesis
    proof (cases "maxItems (config s1) \<le> count s1")
      case rot: True
      obtain s2 where s2: "resetOutstream False s1 = Some s2" "engine_inv s2" "count s2 = 0"
          "outstream s2 \<noteq> None"
        using engine_inv_rotate [OF s1(2) rot s1(3)] assms(3) cfg by auto
      have "config s2 = config s"
        using resetOutstream_keeps [OF s2(1)] cfg by simp
      with s2 assms(4) have "engine_inv (writeItem t s2)"
        by (intro engine_inv_writeItem) simp_all
      with write_private_rotate [OF s1(1) True conv rot s2(1)] assms(5) show ?thesis by simp
    next
      case False
      then have "engine_inv (writeItem t s1)"
        using s1 by (intro engine_inv_writeItem) simp_all
      with write_private_plain [OF s1(1) True conv _ s1(3)] False assms(5) show ?thesis by simp
    qed
  qed
qed

lemma engine_inv_final:
  assumes "engine_inv s" and "final_private s = Some s'"
  shows "engine_inv s'"
proof (cases "destroyed s")
  case True
  with assms show ?thesis
    by (simp add: final_private_def flushOutstream_def)
next
  case False
  from final_private_open [OF False] assms(2)
  have s': "s' = (case outstream s of Some h \<Rightarrow> stream_write terminator (s\<lparr>destroyed := True\<rparr>)
             | None \<Rightarrow> s\<lparr>destroyed := True\<rparr>)\<lparr>outstream := None\<rparr>"
    by simp
  have "config s' = config s" "count s' = count s" "fileCount s' = fileCount s"
    "files s' = files s" "key s' = key s" "itemLog s' = itemLog s" "destroyed s'"
    "outstream s' = None"
    by (simp_all add: s' split: option.split)
  with assms(1) show ?thesis
    by (simp add: engine_inv_def counts_inv_def stream_inv_def key_current_def)
qed

lemma engine_inv_constructor:
  assumes "constructor args d = Some (Inr s)"
    and "has_placeholder (keyPattern (file_cfg (config s)))"
  shows "engine_inv s"
proof -
  let ?cfg = "args\<lparr>file_cfg := trimKeyPattern (file_cfg args)\<rparr>"
  let ?s0 = "initialState ?cfg d"
  have r: "ready_to_open ?s0"
    by (simp add: ready_to_open_def initialState_fields)
  show ?thesis
  proof (cases "lazy args")
    case True
    with assms(1) have "s = ?s0"
      by (rule constructor_lazy)
    then show ?thesis
      using True
      by (simp add: engine_inv_def counts_inv_def stream_inv_def initialState_fields)
  next
    case False
    with assms(1) have o: "openOutstream ?s0 = Some s"
      by (auto simp: constructor_def Let_def split: if_splits)
    then have "config s = ?cfg"
      using openOutstream_keeps [OF o] by (simp add: initialState_fields)
    with assms(2) have "has_placeholder (keyPattern (file_cfg (config ?s0)))"
      by (simp add: initialState_fields)
    with ready_to_open_opens [OF r] o show ?thesis
      by auto
  qed
qed

lemma reachable_engine_inv:
  assumes "reachable h s" and "has_placeholder (keyPattern (file_cfg (config s)))"
    and "1 \<le> maxItems (config s)"
  shows "engine_inv s"
  using assms
proof (induction rule: reachable.induct)
  case (constructed args d s)
  then show ?case by (simp add: engine_inv_constructor)
next
  case (written s chunk cbs s')
  have "config s' = config s"
    using write_private_keeps [OF written.hyps(3)] by simp
  with written show ?case
    by (auto intro: engine_inv_write)
next
  case (finalized s s')
  have "config s' = config s"
    using final_private_keeps [OF finalized.hyps(2)] by simp
  with finalized show ?case
    by (auto intro: engine_inv_final)
qed


section \<open>Counting the entries of the item log\<close>

lemma count_list_replicate: "count_list (replicate m x) f = (if x = f then m else 0)"
  by (induction m) auto

lemma count_list_full_files:
  "count_list (concat (map (replicate m) fs)) f = m * count_list fs f"
  by (induction fs) (simp_all add: count_list_replicate)

lemma count_list_distinct: "distinct fs \<Longrightarrow> f \<in> set fs \<Longrightarrow> count_list fs f = 1"
  by (induction fs) auto

lemma length_full_files: "length (concat (map (replicate m) fs)) = length fs * m"
  by (induction fs) simp_all

lemma sum_list_const: "(\<forall>x\<in>set xs. g x = (m::nat)) \<Longrightarrow> sum_list (map g xs) = length xs * m"
  by (induction xs) simp_all

lemma log_shape:
  assumes "distinct fs" and "fs = [] \<longrightarrow> c = 0"
    and "log = concat (map (replicate m) (butlast fs)) @ replicate c (last fs)"
  shows "length log = (length fs - 1) * m + c"
    and "\<forall>f\<in>set (butlast fs). count_list log f = m"
    and "fs \<noteq> [] \<longrightarrow> count_list log (last fs) = c"
    and "sum_list (map (count_list log) fs) = (length fs - 1) * m + c"
proof -
  show "length log = (length fs - 1) * m + c"
    by (simp add: assms(3) length_full_files)
  have split: "fs = butlast fs @ [last fs]" if "fs \<noteq> []"
    using that by simp
  have apart: "last fs \<notin> set (butlast fs)" if "fs \<noteq> []"
    using assms(1) split [OF that] by (metis distinct_butlast distinct.simps(2) distinct_append
        disjoint_iff list.set_intros(1) append_butlast_last_id distinct_rev rev.simps(2) rev_rev_ident set_rev)
  show inner: "\<forall>f\<in>set (butlast fs). count_list log f = m"
  proof
    fix f assume f: "f \<in> set (butlast fs)"
    then have ne: "fs \<noteq> []" by auto
    have "count_list (butlast fs) f = 1"
      using assms(1) f by (simp add: count_list_distinct distinct_butlast)
    moreover have "last fs \<noteq> f"
      using apart [OF ne] f by auto
    ultimately show "count_list log f = m"
      by (simp add: assms(3) count_list_full_files count_list_replicate)
  qed
  show cur: "fs \<noteq> [] \<longrightarrow> count_list log (last fs) = c"
  proof
    assume ne: "fs \<noteq> []"
    have "count_list (butlast fs) (last fs) = 0"
      using apart [OF ne] by (simp add: count_list_0_iff)
    then show "count_list log (last fs) = c"
      by (simp add: assms(3) count_list_full_files count_list_replicate)
  qed
  show "sum_list (map (count_list log) fs) = (length fs - 1) * m + c"
  proof (cases "fs = []")
    case True
    with assms(2) show ?thesis by simp
  next
    case False
    have "sum_list (map (count_list log) fs)
        = sum_list (map (count_list log) (butlast fs @ [last fs]))"
      using split [OF False] by simp
    also have "\<dots> = sum_list (map (count_list log) (butlast fs)) + count_list log (last fs)"
      by simp
    also have "\<dots> = length (butlast fs) * m + c"
      using sum_list_const [OF inner] cur False by simp
    finally show ?thesis by simp
  qed
qed

section \<open>Runs are reachable\<close>

lemma constructor_keeps:
  assumes "constructor args d = Some (Inr s)"
  shows "config s = args\<lparr>file_cfg := trimKeyPattern (file_cfg args)\<rparr> \<and> \<not> destroyed s"
proof (cases "lazy args")
  case True
  with assms show ?thesis
    using constructor_lazy [OF assms] by (simp add: initialState_fields)
next
  case False
  with assms have "openOutstream (initialState (args\<lparr>file_cfg := trimKeyPattern (file_cfg args)\<rparr>) d) = Some s"
    by (auto simp: constructor_def Let_def split: if_splits)
  from openOutstream_keeps [OF this] show ?thesis
    by (simp add: initialState_fields)
qed

lemma writeAll_reachable:
  assumes "writeAll h s cs = Some s'" and "reachable h s" and "\<not> destroyed s"
  shows "reachable h s' \<and> \<not> destroyed s' \<and> config s' = config s"
  using assms
proof (induction cs arbitrary: s)
  case Nil
  then show ?case by simp
next
  case (Cons c cs)
  then obtain cbs s1 where w: "write_private h s c = Some (cbs, s1)" "writeAll h s1 cs = Some s'"
    by (auto split: option.splits)
  have "reachable h s1"
    using Cons.prems(2,3) w(1) by (rule reachable.written)
  moreover have "\<not> destroyed s1" "config s1 = config s"
    using write_private_keeps [OF w(1)] Cons.prems(3) by simp_all
  ultimately show ?case
    using Cons.IH [OF w(2)] by simp
qed

lemma runAll_reachable:
  assumes "runAll h args d cs = Some s"
  shows "reachable h s \<and> config s = args\<lparr>file_cfg := trimKeyPattern (file_cfg args)\<rparr>"
proof -
  obtain s0 s1 where run: "constructor args d = Some (Inr s0)" "writeAll h s0 cs = Some s1"
      "final_private s1 = Some s"
    using assms by (auto simp: runAll_def split: option.splits sum.splits)
  have "reachable h s0"
    using run(1) by (rule reachable.constructed)
  with writeAll_reachable [OF run(2)] constructor_keeps [OF run(1)]
  have "reachable h s1" "config s1 = args\<lparr>file_cfg := trimKeyPattern (file_cfg args)\<rparr>"
    by simp_all
  with run(3) final_private_keeps [OF run(3)] show ?thesis
    by (auto intro: reachable.finalized)
qed

section \<open>Grouping the items by file\<close>

lemma addItem_nonempty [simp]: "addItem m t gs \<noteq> []"
  by (simp add: addItem_def)

lemma last_addItem_nonempty [simp]: "last (addItem m t gs) \<noteq> []"
  by (simp add: addItem_def)

lemma concat_addItem: "gs \<noteq> [] \<Longrightarrow> concat (addItem m t gs) = concat gs @ [t]"
proof -
  assume "gs \<noteq> []"
  then have "concat gs = concat (butlast gs) @ last gs"
    by (metis append_butlast_last_id concat_append concat.simps(1,2) append_Nil2)
  then show ?thesis
    by (simp add: addItem_def)
qed

lemma grouped_addItem:
  assumes "grouped m gs" and "1 \<le> m"
  shows "grouped m (addItem m t gs)"
proof (cases "m \<le> length (last gs)")
  case True
  with assms have "length (last gs) = m" by (simp add: grouped_def)
  moreover have "set gs = insert (last gs) (set (butlast gs))"
    using assms(1) by (metis grouped_def append_butlast_last_id list.simps(15) rotate1.simps(2) set_rotate1)
  ultimately show ?thesis
    using assms True by (auto simp: grouped_def addItem_def)
next
  case False
  with assms show ?thesis
    by (auto simp: grouped_def addItem_def)
qed

lemma groupItems_snoc: "groupItems m gs (ts @ [t]) = addItem m t (groupItems m gs ts)"
  by (simp add: groupItems_def)

lemma groupItems_facts:
  assumes "grouped m gs" and "1 \<le> m"
  shows "grouped m (groupItems m gs ts) \<and> concat (groupItems m gs ts) = concat gs @ ts
         \<and> (ts \<noteq> [] \<longrightarrow> last (groupItems m gs ts) \<noteq> [])"
proof (induction ts rule: rev_induct)
  case Nil
  with assms show ?case by (simp add: groupItems_def)
next
  case (snoc t ts)
  then have "grouped m (groupItems m gs ts)" "groupItems m gs ts \<noteq> []"
    by (simp_all add: grouped_def)
  with snoc assms(2) show ?case
    by (simp add: groupItems_snoc grouped_addItem concat_addItem)
qed

lemma length_concat_equal:
  "(\<forall>g\<in>set bs. length g = m) \<Longrightarrow> length (concat bs) = length bs * m"
  by (induction bs) simp_all

lemma length_concat_grouped:
  assumes "grouped m gs"
  shows "length (concat gs) = (length gs - 1) * m + length (last gs)"
proof -
  have gs: "gs = butlast gs @ [last gs]"
    using assms by (simp add: grouped_def)
  have "length (concat (butlast gs)) = length (butlast gs) * m"
    using assms by (intro length_concat_equal) (simp add: grouped_def)
  then have "length (concat (butlast gs @ [last gs])) = (length gs - 1) * m + length (last gs)"
    by simp
  with gs show ?thesis by simp
qed

lemma ceil_div_groups:
  assumes "n = (k - 1) * m + r" and "1 \<le> r" and "r \<le> m" and "1 \<le> k"
  shows "ceil_div n m = k" and "n - m * (ceil_div n m - 1) = r"
proof -
  have "n + m - 1 = k * m + (r - 1)"
    using assms by (cases k) (simp_all add: algebra_simps)
  moreover have "r - 1 < m"
    using assms by simp
  ultimately show "ceil_div n m = k"
    by (simp add: ceil_div_def)
  then show "n - m * (ceil_div n m - 1) = r"
    using assms(1) by (simp add: algebra_simps)
qed


section \<open>The engine on an empty folder\<close>

lemma arrayOpen_Nil [simp]: "arrayOpen [] = ''[''"
  by (simp add: arrayOpen_def)

lemma tracks_opened:
  fixes c :: "('v, 'e) config"
  shows "\<exists>s. openOutstream (initialState c fmempty) = Some s \<and> tracks c s [[]]"
proof -
  let ?init = "initialState c fmempty"
  let ?p = "indexPath c 0"
  let ?opened = "openOverwrite ?p (?init\<lparr>files := files ?init @ [?p]\<rparr>)"
  have "openOutstream ?init
      = Some (openOverwrite (getConfig ?init) (?init\<lparr>files := files ?init @ [getConfig ?init]\<rparr>))"
    by (rule openOutstream_free) (simp add: initialState_fields)
  then have "openOutstream ?init = Some ?opened"
    by (simp only: initialState_fields(11))
  moreover have "key_current ?opened"
    using initialState_fields(10) [of c fmempty] by (simp add: key_current_def)
  then have "tracks c ?opened [[]]"
    unfolding tracks_def by (simp add: initialState_fields)
  ultimately show ?thesis by blast
qed

lemma tracks_plain:
  assumes "tracks c s gs" and "has_placeholder (keyPattern (file_cfg c))"
    and "length (last gs) < m"
  shows "tracks c (writeItem t s) (addItem m t gs)"
proof -
  let ?n = "length gs"
  let ?P = "indexPath c"
  let ?g = "last gs"
  have tr: "gs \<noteq> []" "config s = c" "\<not> destroyed s" "key_current s" "fileCount s = ?n"
      "files s = map ?P [0..<?n]" "count s = length ?g"
      "sep s = (if ?g = [] then [] else SEPARATOR)"
      "outstream s = Some \<lparr>wpath = ?P (?n - 1), wpos = length (arrayOpen ?g), wappend = False\<rparr>"
      "\<forall>i<?n. fmlookup (disk s) (?P i)
             = Some (if Suc i < ?n then arrayText (gs ! i) else arrayOpen (gs ! i))"
      "\<forall>p. (\<forall>i<?n. p \<noteq> ?P i) \<longrightarrow> fmlookup (disk s) p = None"
    using assms(1) by (simp_all add: tracks_def)
  have add: "addItem m t gs = butlast gs @ [?g @ [t]]"
    using assms(3) by (simp add: addItem_def)
  have len: "length (addItem m t gs) = ?n" "last (addItem m t gs) = ?g @ [t]"
    using tr(1) by (simp_all add: add)
  have last_nth: "gs ! (?n - 1) = ?g"
    using tr(1) by (simp add: last_conv_nth)
  have old: "fmlookup (disk s) (?P (?n - 1)) = Some (arrayOpen ?g)"
    using tr(1,10) last_nth by simp
  have grow: "arrayOpen (?g @ [t]) = arrayOpen ?g @ sep s @ t"
    by (simp add: arrayOpen_snoc tr(8))
  have out: "outstream (writeItem t s)
      = Some \<lparr>wpath = ?P (?n - 1), wpos = length (arrayOpen (?g @ [t])), wappend = False\<rparr>"
    unfolding writeItem_outstream using outstream_stream_write [OF tr(9), of "sep s @ t"]
    by (simp add: grow)
  have dsk: "disk (writeItem t s) = fmupd (?P (?n - 1)) (arrayOpen (?g @ [t])) (disk s)"
    unfolding writeItem_disk using disk_stream_write [OF tr(9) old, of "sep s @ t"]
    by (simp add: grow)
  have lookups: "fmlookup (disk (writeItem t s)) (?P i)
      = Some (if Suc i < ?n then arrayText (addItem m t gs ! i) else arrayOpen (addItem m t gs ! i))"
    if "i < ?n" for i
  proof (cases "Suc i < ?n")
    case True
    then have "?P (?n - 1) \<noteq> ?P i"
      using indexPath_inj [OF assms(2), of "?n - 1" i] by auto
    moreover have "i < length (butlast gs)"
      using True by simp
    then have "addItem m t gs ! i = gs ! i"
      by (simp add: add nth_append nth_butlast)
    ultimately show ?thesis
      using tr(10) True that by (simp add: dsk)
  next
    case False
    with that have i: "i = ?n - 1" by simp
    have "addItem m t gs ! i = ?g @ [t]"
      using tr(1) by (simp add: add i nth_append)
    then show ?thesis
      using False by (simp add: dsk i)
  qed
  have others: "fmlookup (disk (writeItem t s)) p = None" if "\<forall>i<?n. p \<noteq> ?P i" for p
  proof -
    have "p \<noteq> ?P (?n - 1)"
      using that tr(1) by simp
    then show ?thesis
      using tr(11) that by (simp add: dsk)
  qed
  have "key_current (writeItem t s)"
    using tr(4) by (simp add: key_current_def)
  then show ?thesis
    unfolding tracks_def len
    using tr(2,3,5,6,7,8) out lookups others by simp
qed


lemma tracks_rotate:
  assumes "tracks c s gs" and "has_placeholder (keyPattern (file_cfg c))"
    and "m \<le> length (last gs)"
  shows "\<exists>s2. resetOutstream False s = Some s2 \<and> tracks c (writeItem t s2) (addItem m t gs)"
proof -
  let ?n = "length gs"
  let ?P = "indexPath c"
  let ?g = "last gs"
  have tr: "gs \<noteq> []" "config s = c" "\<not> destroyed s" "key_current s" "fileCount s = ?n"
      "files s = map ?P [0..<?n]"
      "outstream s = Some \<lparr>wpath = ?P (?n - 1), wpos = length (arrayOpen ?g), wappend = False\<rparr>"
      "\<forall>i<?n. fmlookup (disk s) (?P i)
             = Some (if Suc i < ?n then arrayText (gs ! i) else arrayOpen (gs ! i))"
      "\<forall>p. (\<forall>i<?n. p \<noteq> ?P i) \<longrightarrow> fmlookup (disk s) p = None"
    using assms(1) by (simp_all add: tracks_def)
  have pos: "0 < ?n"
    using tr(1) by simp
  have add: "addItem m t gs = gs @ [[t]]"
    using assms(3) by (simp add: addItem_def)
  have last_nth: "gs ! (?n - 1) = ?g"
    using tr(1) by (simp add: last_conv_nth)
  have old: "fmlookup (disk s) (?P (?n - 1)) = Some (arrayOpen ?g)"
    using tr(1,8) last_nth by simp
  have apart: "?P i \<noteq> ?P j" if "i \<noteq> j" for i j
    using indexPath_inj [OF assms(2)] that by blast
  text \<open>The current file is closed.\<close>
  define sa where "sa = stream_write terminator s"
  have sa_disk: "disk sa = fmupd (?P (?n - 1)) (arrayText ?g) (disk s)"
    unfolding sa_def using disk_stream_write [OF tr(7) old, of terminator]
    by (simp add: arrayText_def)
  text \<open>The next key is generated and its file is opened.\<close>
  define sb where "sb = incrementKey (resetCount sa)"
  have sb: "config sb = c" "\<not> destroyed sb" "fileCount sb = ?n + 1" "files sb = map ?P [0..<?n]"
      "disk sb = disk sa" "getConfig sb = ?P ?n" "key_current sb"
    using tr(2,3,5,6)
    by (simp_all add: sb_def sa_def incrementKey_def resetCount_def getConfig_def indexPath_def
        key_current_def)
  have free: "fmlookup (disk sb) (getConfig sb) = None"
  proof -
    have "\<forall>i<?n. ?P ?n \<noteq> ?P i"
      by (intro allI impI apart) simp
    then have "fmlookup (disk s) (?P ?n) = None"
      using tr(9) by blast
    moreover have "?P (?n - 1) \<noteq> ?P ?n"
      using pos by (intro apart) arith
    ultimately show ?thesis
      by (simp add: sb sa_disk)
  qed
  define sc where "sc = openOverwrite (?P ?n) (sb\<lparr>files := files sb @ [?P ?n]\<rparr>)"
  have reset: "resetOutstream False s = Some sc"
    using openOutstream_free [OF free]
    by (simp add: resetOutstream_def tr(7) sa_def [symmetric] sb_def [symmetric] sc_def sb(6))
  have sc: "config sc = c" "\<not> destroyed sc" "fileCount sc = ?n + 1"
      "files sc = map ?P [0..<?n + 1]" "count sc = 0" "sep sc = []"
      "outstream sc = Some \<lparr>wpath = ?P ?n, wpos = 1, wappend = False\<rparr>"
      "disk sc = fmupd (?P ?n) ''['' (fmupd (?P (?n - 1)) (arrayText ?g) (disk s))"
      "key_current sc"
    using sb(1-4,7)
    by (simp_all add: sc_def sb(5) sa_disk key_current_def)
      (simp_all add: sb_def resetCount_def incrementKey_def)
  text \<open>The item is the first element of the new file.\<close>
  let ?w = "writeItem t sc"
  have lk: "fmlookup (disk sc) (?P ?n) = Some ''[''"
    by (simp add: sc(8))
  have out: "outstream ?w = Some \<lparr>wpath = ?P ?n, wpos = length (arrayOpen [t]), wappend = False\<rparr>"
    unfolding writeItem_outstream using outstream_stream_write [OF sc(7), of "sep sc @ t"]
    by (simp add: sc(6) arrayOpen_def)
  have dsk: "disk ?w = fmupd (?P ?n) (arrayOpen [t]) (fmupd (?P (?n - 1)) (arrayText ?g) (disk s))"
    unfolding writeItem_disk using disk_stream_write [OF sc(7) lk, of "sep sc @ t"]
    by (simp add: sc(6,8) arrayOpen_def)
  have lookups: "fmlookup (disk ?w) (?P i)
      = Some (if Suc i < ?n + 1 then arrayText ((gs @ [[t]]) ! i) else arrayOpen ((gs @ [[t]]) ! i))"
    if "i < ?n + 1" for i
  proof -
    show ?thesis
    proof (cases "i = ?n")
      case True
      then show ?thesis by (simp add: dsk)
    next
      case False
      with that have less: "i < ?n" by simp
      show ?thesis
      proof (cases "Suc i < ?n")
        case True
        then have "?P ?n \<noteq> ?P i" "?P (?n - 1) \<noteq> ?P i"
          by (intro apart; arith)+
        with True tr(8) show ?thesis
          by (simp add: dsk nth_append)
      next
        case last: False
        with less have i: "i = ?n - 1" by simp
        from less have "?P ?n \<noteq> ?P i"
          by (intro apart) arith
        with less last last_nth show ?thesis
          by (simp add: dsk nth_append i)
      qed
    qed
  qed
  have others: "fmlookup (disk ?w) p = None" if "\<forall>i<?n + 1. p \<noteq> ?P i" for p
  proof -
    have "p \<noteq> ?P ?n" "p \<noteq> ?P (?n - 1)" "\<forall>i<?n. p \<noteq> ?P i"
      using that pos by simp_all
    then show ?thesis
      using tr(9) by (simp add: dsk)
  qed
  have "key_current ?w"
    using sc(9) by (simp add: key_current_def)
  then have "tracks c ?w (gs @ [[t]])"
    unfolding tracks_def
    using sc(1-6) out lookups others by simp
  with reset add show ?thesis
    by simp
qed


lemma tracks_write:
  fixes s :: "('v, 'e) arraystream"
  assumes "tracks c s gs" and "has_placeholder (keyPattern (file_cfg c))"
    and "passesValidation c chunk" and "encode h chunk = Some t"
  shows "\<exists>s'. write_private h s chunk = Some ([CbOk], s')
           \<and> tracks c s' (addItem (maxItems c) t gs)"
proof -
  have tr: "config s = c" "\<not> destroyed s" "count s = length (last gs)" "outstream s \<noteq> None"
    using assms(1) by (simp_all add: tracks_def)
  have lz: "lazyOpen s = Some s"
    using tr(4) by (rule lazyOpen_open)
  have pv: "passesValidation (config s) chunk"
    using assms(3) tr(1) by simp
  note conv = convertChunk_encode [OF assms(4)]
  show ?thesis
  proof (cases "maxItems c \<le> length (last gs)")
    case True
    then obtain s2 where s2: "resetOutstream False s = Some s2"
        "tracks c (writeItem t s2) (addItem (maxItems c) t gs)"
      using tracks_rotate [OF assms(1,2)] by blast
    have "write_private h s chunk = Some ([CbOk], writeItem t s2)"
      using write_private_rotate [OF lz pv conv _ s2(1)] True tr by simp
    with s2(2) show ?thesis by blast
  next
    case False
    then have "tracks c (writeItem t s) (addItem (maxItems c) t gs)"
      using tracks_plain [OF assms(1,2)] by simp
    moreover have "write_private h s chunk = Some ([CbOk], writeItem t s)"
      using write_private_plain [OF lz pv conv _ tr(4)] False tr by simp
    ultimately show ?thesis by blast
  qed
qed

lemma tracks_writeAll:
  fixes s :: "('v, 'e) arraystream"
  assumes "has_placeholder (keyPattern (file_cfg c))"
  shows "tracks c s gs \<Longrightarrow> \<forall>x\<in>set cs. passesValidation c x \<Longrightarrow> map (encode h) cs = map Some ts
         \<Longrightarrow> \<exists>s'. writeAll h s cs = Some s' \<and> tracks c s' (foldl (\<lambda>gs t. addItem (maxItems c) t gs) gs ts)"
proof (induction cs arbitrary: s gs ts)
  case Nil
  then show ?case by simp
next
  case (Cons x cs)
  then obtain t ts' where ts: "ts = t # ts'" "encode h x = Some t" "map (encode h) cs = map Some ts'"
    by (cases ts) auto
  obtain s1 where s1: "write_private h s x = Some ([CbOk], s1)"
      "tracks c s1 (addItem (maxItems c) t gs)"
    using tracks_write [OF Cons.prems(1) assms _ ts(2)] Cons.prems(2) by auto
  obtain s' where "writeAll h s1 cs = Some s'"
      "tracks c s' (foldl (\<lambda>gs t. addItem (maxItems c) t gs) (addItem (maxItems c) t gs) ts')"
    using Cons.IH [OF s1(2) _ ts(3)] Cons.prems(2) by auto
  with s1(1) ts(1) show ?case
    by simp
qed

lemma tracks_final:
  assumes "tracks c s gs" and "has_placeholder (keyPattern (file_cfg c))"
  shows "\<exists>sf. final_private s = Some sf \<and> destroyed sf
           \<and> files sf = map (indexPath c) [0..<length gs]
           \<and> (\<forall>i<length gs. fmlookup (disk sf) (indexPath c i) = Some (arrayText (gs ! i)))
           \<and> (\<forall>p. (\<forall>i<length gs. p \<noteq> indexPath c i) \<longrightarrow> fmlookup (disk sf) p = None)"
proof -
  let ?n = "length gs"
  let ?P = "indexPath c"
  have tr: "gs \<noteq> []" "\<not> destroyed s" "files s = map ?P [0..<?n]"
      "outstream s = Some \<lparr>wpath = ?P (?n - 1), wpos = length (arrayOpen (last gs)),
                          wappend = False\<rparr>"
      "\<forall>i<?n. fmlookup (disk s) (?P i)
             = Some (if Suc i < ?n then arrayText (gs ! i) else arrayOpen (gs ! i))"
      "\<forall>p. (\<forall>i<?n. p \<noteq> ?P i) \<longrightarrow> fmlookup (disk s) p = None"
    using assms(1) by (simp_all add: tracks_def)
  have pos: "0 < ?n"
    using tr(1) by simp
  have last_nth: "gs ! (?n - 1) = last gs"
    using tr(1) by (simp add: last_conv_nth)
  define sd where "sd = s\<lparr>destroyed := True\<rparr>"
  define sf where "sf = (stream_write terminator sd)\<lparr>outstream := None\<rparr>"
  have fin: "final_private s = Some sf"
    using final_private_open [OF tr(2)] tr(4) by (simp add: sf_def sd_def)
  have sd: "outstream sd = Some \<lparr>wpath = ?P (?n - 1), wpos = length (arrayOpen (last gs)),
                                wappend = False\<rparr>"
      "fmlookup (disk sd) (?P (?n - 1)) = Some (arrayOpen (last gs))"
    using tr(4,5) pos last_nth by (simp_all add: sd_def)
  have dsk: "disk sf = fmupd (?P (?n - 1)) (arrayText (last gs)) (disk s)"
    using disk_stream_write [OF sd, of terminator]
    by (simp add: sf_def arrayText_def) (simp add: sd_def)
  have lookups: "fmlookup (disk sf) (?P i) = Some (arrayText (gs ! i))" if "i < ?n" for i
  proof (cases "Suc i < ?n")
    case True
    then have "?P (?n - 1) \<noteq> ?P i"
      using indexPath_inj [OF assms(2), of "?n - 1" i] by auto
    with True tr(5) that show ?thesis
      by (simp add: dsk)
  next
    case False
    with that have "i = ?n - 1" by simp
    then show ?thesis
      using last_nth by (simp add: dsk)
  qed
  have others: "fmlookup (disk sf) p = None" if "\<forall>i<?n. p \<noteq> ?P i" for p
  proof -
    have "p \<noteq> ?P (?n - 1)"
      using that pos by simp
    then show ?thesis
      using tr(6) that by (simp add: dsk)
  qed
  have "destroyed sf" "files sf = map ?P [0..<?n]"
    using tr(3) by (simp_all add: sf_def sd_def)
  with fin lookups others show ?thesis
    by blast
qed


lemma grouping_counts:
  assumes "1 \<le> m" and "ts \<noteq> []"
  defines "gs \<equiv> groupItems m [[]] ts"
  shows "length gs = ceil_div (length ts) m" and "concat gs = ts" and "gs \<noteq> []"
    and "\<forall>i<length gs. length (gs ! i)
            = (if Suc i < length gs then m else length ts - m * (ceil_div (length ts) m - 1))"
proof -
  have "grouped m [[]]"
    by (simp add: grouped_def)
  from groupItems_facts [OF this assms(1), of ts] assms(2)
  have g: "grouped m gs" and c: "concat gs = ts" and l: "last gs \<noteq> []"
    by (simp_all add: gs_def)
  show "concat gs = ts" by (rule c)
  show ne: "gs \<noteq> []" using g by (simp add: grouped_def)
  have n: "length ts = (length gs - 1) * m + length (last gs)"
    using length_concat_grouped [OF g] c by simp
  have r: "1 \<le> length (last gs)" "length (last gs) \<le> m" "1 \<le> length gs"
    using l g ne by (simp_all add: grouped_def Suc_leI)
  note cd = ceil_div_groups [OF n r]
  show "length gs = ceil_div (length ts) m"
    using cd(1) by simp
  show "\<forall>i<length gs. length (gs ! i)
            = (if Suc i < length gs then m else length ts - m * (ceil_div (length ts) m - 1))"
  proof (intro allI impI)
    fix i assume i: "i < length gs"
    show "length (gs ! i)
            = (if Suc i < length gs then m else length ts - m * (ceil_div (length ts) m - 1))"
    proof (cases "Suc i < length gs")
      case True
      then have "gs ! i = butlast gs ! i" "i < length (butlast gs)"
        by (simp_all add: nth_butlast)
      then have "gs ! i \<in> set (butlast gs)"
        by (metis nth_mem)
      with g True show ?thesis
        by (simp add: grouped_def)
    next
      case False
      with i have "i = length gs - 1" by simp
      then have "gs ! i = last gs"
        using ne by (simp add: last_conv_nth)
      with False cd(2) show ?thesis by simp
    qed
  qed
qed

lemma run_tracks:
  fixes s0 :: "('v, 'e) arraystream"
  assumes "constructor args fmempty = Some (Inr s0)"
    and "has_placeholder (keyPattern (file_cfg (config s0)))"
    and "\<forall>x\<in>set cs. passesValidation args x" and "map (encode h) cs = map Some ts"
    and "cs \<noteq> []"
  shows "\<exists>s. writeAll h s0 cs = Some s
           \<and> tracks (config s0) s (groupItems (maxItems args) [[]] ts)"
proof -
  let ?c = "config s0"
  have cfg: "?c = args\<lparr>file_cfg := trimKeyPattern (file_cfg args)\<rparr>" and nd: "\<not> destroyed s0"
    using constructor_keeps [OF assms(1)] by simp_all
  have m: "maxItems ?c = maxItems args"
    by (simp add: cfg)
  have pv: "passesValidation ?c = passesValidation args"
    by (rule passesValidation_cong) (simp add: cfg)
  obtain so where so: "openOutstream (initialState ?c fmempty) = Some so" "tracks ?c so [[]]"
    using tracks_opened by blast
  obtain s where s: "writeAll h so cs = Some s"
      "tracks ?c s (foldl (\<lambda>gs t. addItem (maxItems ?c) t gs) [[]] ts)"
    using tracks_writeAll [OF assms(2) so(2) _ assms(4)] assms(3) pv by auto
  have "writeAll h s0 cs = writeAll h so cs"
  proof (cases "lazy args")
    case True
    then have s0: "s0 = initialState ?c fmempty"
      using constructor_lazy [OF assms(1)] cfg by simp
    have "lazy ?c" "outstream s0 = None"
      using True cfg s0 initialState_fields(7) [of ?c fmempty] by simp_all
    with so(1) s0 have lz: "lazyOpen s0 = Some so"
      by (simp add: lazyOpen_def)
    have "destroyed so = destroyed s0"
      using so(2) nd by (simp add: tracks_def)
    from write_private_after_lazyOpen [OF lz this, of h]
    show ?thesis
      using assms(5) by (cases cs) simp_all
  next
    case False
    with assms(1) have "openOutstream (initialState ?c fmempty) = Some s0"
      by (auto simp: constructor_def Let_def cfg split: if_splits)
    with so(1) show ?thesis by simp
  qed
  with s show ?thesis
    by (simp add: groupItems_def m)
qed

lemma ceil_div_one: "1 \<le> k \<Longrightarrow> k \<le> m \<Longrightarrow> ceil_div k m = 1"
  using ceil_div_groups(1) [of k 1 m k] by simp

lemma tracks_files:
  assumes "tracks c s gs"
  shows "getFilePaths s = map (indexPath c) [0..<length gs]"
  using assms by (simp add: tracks_def getFilePaths_def)

chapter \<open>Properties of the engine\<close>

section \<open>Resuming an existing file: the separator\<close>

text \<open>
  Claim C4. When an existing non-empty file is opened under the append policy, a file of
  fewer than three bytes gets no separator; otherwise the byte at offset \<open>size - 3\<close> is
  read, and the separator is required before the next element if and only if that byte
  is neither \<^verbatim>\<open>[\<close> nor the comma.
\<close>

theorem resume_separator:
  assumes "append_cfg (config s)" and "\<not> overwrite (config s)"
    and "fmlookup (disk s) (getConfig s) = Some content" and "content \<noteq> []"
  shows "\<exists>s'. openOutstream s = Some s'
           \<and> (length content < 3 \<longrightarrow> sep s' = [])
           \<and> (3 \<le> length content \<longrightarrow>
                readSync content (length content - 3) = Some (content ! (length content - 3))
                \<and> (sep s' = SEPARATOR) =
                    (content ! (length content - 3) \<noteq> CHR ''[''
                      \<and> content ! (length content - 3) \<noteq> CHR '','')
                \<and> (sep s' = []) =
                    (content ! (length content - 3) = CHR ''[''
                      \<or> content ! (length content - 3) = CHR '',''))"
  unfolding openOutstream_append [OF assms(1-3)]
  by (auto simp: sep_openAppend useSep_iff readSync_def)

theorem resume_separator_witness:
  "append_cfg (config (initialState ex_append_config ex_disk_resume))
   \<and> \<not> overwrite (config (initialState ex_append_config ex_disk_resume))
   \<and> fmlookup (disk (initialState ex_append_config ex_disk_resume))
        (getConfig (initialState ex_append_config ex_disk_resume)) = Some ''[1,2]\<newline>''
   \<and> (\<exists>s'. openOutstream (initialState ex_append_config ex_disk_resume) = Some s'
          \<and> sep s' = SEPARATOR)"
proof -
  let ?s = "initialState ex_append_config ex_disk_resume"
  have 1: "append_cfg (config ?s)" by code_simp
  have 2: "\<not> overwrite (config ?s)" by code_simp
  have 3: "fmlookup (disk ?s) (getConfig ?s) = Some ''[1,2]\<newline>''" by code_simp
  have 4: "''[1,2]\<newline>'' \<noteq> []" by simp
  from resume_separator [OF 1 2 3 4] 1 2 3 show ?thesis
    by auto
qed

section \<open>The default policy never opens an existing file\<close>

text \<open>
  Claim C9. Under the default policy (neither append nor overwrite) the engine opens a
  file only at a name where no file existed: while a file exists at the candidate name it
  moves on to the next index, so the file it opens has the first free index from the
  current one on, every index skipped being taken; the new file starts with the opening
  bracket. With files at the indices 0 and 1 the first file opened has index 2.
\<close>

theorem default_policy_skips_existing:
  assumes "\<not> append_cfg (config s)" and "\<not> overwrite (config s)"
    and "has_placeholder (keyPattern (file_cfg (config s)))" and "key_current s"
  shows "\<exists>n s'. openOutstream s = Some s'
           \<and> fileCount s - 1 \<le> n
           \<and> (\<forall>j. fileCount s - 1 \<le> j \<and> j < n \<longrightarrow> fmlookup (disk s) (indexPath (config s) j) \<noteq> None)
           \<and> fmlookup (disk s) (indexPath (config s) n) = None
           \<and> files s' = files s @ [indexPath (config s) n]
           \<and> outstream s' = Some \<lparr>wpath = indexPath (config s) n, wpos = 1, wappend = False\<rparr>
           \<and> disk s' = fmupd (indexPath (config s) n) ''['' (disk s)"
proof -
  obtain n where n: "fileCount s - 1 \<le> n"
      "openOutstream s =
         Some (openOverwrite (indexPath (config s) n)
                ((setIndex n s)\<lparr>files := files s @ [indexPath (config s) n]\<rparr>))"
      "fmlookup (disk s) (indexPath (config s) n) = None"
      "\<forall>j. fileCount s - 1 \<le> j \<and> j < n \<longrightarrow> fmlookup (disk s) (indexPath (config s) j) \<noteq> None"
    using openOutstream_default [OF assms] by blast
  let ?s' = "openOverwrite (indexPath (config s) n)
                ((setIndex n s)\<lparr>files := files s @ [indexPath (config s) n]\<rparr>)"
  have "files ?s' = files s @ [indexPath (config s) n]"
    "outstream ?s' = Some \<lparr>wpath = indexPath (config s) n, wpos = 1, wappend = False\<rparr>"
    "disk ?s' = fmupd (indexPath (config s) n) ''['' (disk s)"
    by (simp_all add: setIndex_def)
  with n show ?thesis by blast
qed

theorem default_policy_skips_existing_witness:
  "\<not> append_cfg ex_eager_config \<and> \<not> overwrite ex_eager_config
   \<and> has_placeholder (keyPattern (file_cfg ex_eager_config))
   \<and> key_current (initialState ex_eager_config ex_disk_taken)
   \<and> map_option getFilePaths (openOutstream (initialState ex_eager_config ex_disk_taken))
       = Some [''output/testfile_0002.json'']
   \<and> map_option (map_sum id getFilePaths) (constructor ex_eager_config ex_disk_taken)
       = Some (Inr [''output/testfile_0002.json''])"
proof -
  have 5: "map_option (map_sum id getFilePaths) (constructor ex_eager_config ex_disk_taken)
       = Some (Inr [''output/testfile_0002.json''])" by code_simp
  let ?s = "initialState ex_eager_config ex_disk_taken"
  have cfg: "config ?s = ex_eager_config"
    by (simp add: initialState_def incrementKey_def)
  have 1: "\<not> append_cfg (config ?s)" by code_simp
  have 2: "\<not> overwrite (config ?s)" by code_simp
  have 3: "has_placeholder (keyPattern (file_cfg (config ?s)))" by code_simp
  have 4: "key_current ?s" by (simp add: initialState_def)
  have fc: "fileCount ?s = 1" "files ?s = []"
    by (simp_all add: initialState_def incrementKey_def)
  have taken: "fmlookup (disk ?s) (indexPath (config ?s) 0) \<noteq> None"
    "fmlookup (disk ?s) (indexPath (config ?s) 1) \<noteq> None" by code_simp+
  have free: "fmlookup (disk ?s) (indexPath (config ?s) 2) = None" by code_simp
  have p2: "indexPath (config ?s) 2 = ''output/testfile_0002.json''" by code_simp
  obtain n s' where n: "openOutstream ?s = Some s'"
      "\<forall>j. fileCount ?s - 1 \<le> j \<and> j < n \<longrightarrow> fmlookup (disk ?s) (indexPath (config ?s) j) \<noteq> None"
      "fmlookup (disk ?s) (indexPath (config ?s) n) = None"
      "files s' = files ?s @ [indexPath (config ?s) n]"
    using default_policy_skips_existing [OF 1 2 3 4] by blast
  have "\<not> 2 < n"
    using n(2) free fc by auto
  moreover have "n \<noteq> 0"
  proof
    assume "n = 0"
    with n(3) taken(1) show False by simp
  qed
  moreover have "n \<noteq> 1"
  proof
    assume "n = 1"
    with n(3) taken(2) show False by simp
  qed
  ultimately have "n = 2" by arith
  with n(1,4) fc p2 have "map_option getFilePaths (openOutstream ?s) = Some [''output/testfile_0002.json'']"
    by (simp add: getFilePaths_def)
  with 1 2 3 4 5 show ?thesis
    unfolding cfg by blast
qed

section \<open>An item that cannot be serialized\<close>

text \<open>
  Claim C7 says that an item which is neither a buffer nor a string and whose JSON
  serialization fails is reported and leaves the engine as it was. On the code the
  \<^verbatim>\<open>catch\<close> around \<^verbatim>\<open>JSON.stringify\<close> calls back with the error and does not return: the
  item is then written in its string coercion, the count advances, and the callback is
  called a second time. On the fresh lazy engine, for the unserializable value:
\<close>

theorem unserializable_item_is_written:
  "outcome (write_private ex_host ex_engine (Val JCircular)) =
     Some ([CbErr StringifyError, CbOk], False, 1, 1,
           [(''output/testfile_0000.json'', Some ''[[object Object]'')])"
  by code_simp

section \<open>Round trip\<close>

text \<open>
  Claim C1 says that the files of a finalized run, decoded and concatenated, give the
  items that passed validation and encoding. On the code an item that fails encoding is
  written all the same (see C7), so a run with the items \<open>1\<close>, an unserializable value
  and \<open>3\<close>, with two items per file, leaves a first file that is no JSON array:
\<close>

theorem roundtrip_broken_by_unserializable_item:
  "map_option observe
     (runAll ex_host ex_config fmempty [Val (JNumber 1), Val JCircular, Val (JNumber 3)]) =
     Some (True, 1, 3,
           [(''output/testfile_0000.json'', Some ''[1,[object Object]]\<newline>''),
            (''output/testfile_0001.json'', Some ''[3]\<newline>'')])"
  by code_simp

section \<open>Writing to a finalized engine\<close>

text \<open>
  Claim C5. Finalization (\<^verbatim>\<open>_final\<close>, that is \<^verbatim>\<open>flushOutstream(true)\<close>) leaves the engine
  destroyed, and on the engine it leaves every call of \<^verbatim>\<open>write\<close> fails with the "stream
  closed" error, for that call only: the engine (counters, file list, separator, handle,
  disk) is exactly as before the call, so that the same holds of every later call.
\<close>

theorem write_after_final_rejected:
  assumes "final_private s = Some sf"
  shows "destroyed sf \<and> write_public h sf chunk = Some ([CbErr StreamClosedError], sf)"
proof -
  have "destroyed sf"
  proof (cases "destroyed s")
    case True
    with assms show ?thesis
      by (simp add: final_private_def flushOutstream_def)
  next
    case False
    with assms have "resetOutstream True (s\<lparr>destroyed := True\<rparr>) = Some sf"
      by (simp add: final_private_def flushOutstream_def)
    from resetOutstream_keeps [OF this] show ?thesis
      by simp
  qed
  then show ?thesis
    by (simp add: write_public_def)
qed

theorem write_after_final_rejected_witness:
  "writeAll ex_host ex_engine [Val (JNumber 1)] = Some ex_written
   \<and> final_private ex_written = Some ex_finalized
   \<and> destroyed ex_finalized
   \<and> write_public ex_host ex_finalized (Val (JNumber 2))
       = Some ([CbErr StreamClosedError], ex_finalized)"
proof -
  have 1: "final_private ex_written = Some ex_finalized"
    by (rule ex_final)
  from write_after_final_rejected [OF 1, of ex_host "Val (JNumber 2)"] 1 ex_write_one
  show ?thesis by simp
qed

section \<open>An item that fails validation\<close>

text \<open>
  Claim C6. With a validator configured, a write of an item that fails validation, on an
  engine that is not finalized, calls back once with the validation error; the count of
  the current file, the total count and the items written are as before; an open file is
  neither closed nor written to (the whole state is unchanged; an engine that had not
  opened its first file yet has opened it); and every later write behaves as if the
  invalid item had never been submitted.
\<close>

theorem invalid_item_recoverable:
  assumes "itemValidationSchema (config s) = Some schema" and "validateChunk schema chunk = Some err"
    and "\<not> destroyed s" and "has_placeholder (keyPattern (file_cfg (config s)))"
  shows "\<exists>s1. write_private h s chunk = Some ([CbErr (ValidationError err)], s1)
           \<and> getCount s1 = getCount s \<and> itemLog s1 = itemLog s
           \<and> (outstream s \<noteq> None \<or> files s = [] \<longrightarrow> getTotalCount s1 = getTotalCount s)
           \<and> (outstream s \<noteq> None \<longrightarrow> s1 = s)
           \<and> (outstream s = None \<longrightarrow> s1 = s \<or> openOutstream s = Some s1)
           \<and> (\<forall>chunk'. write_private h s1 chunk' = write_private h s chunk')"
proof -
  obtain s1 where s1: "lazyOpen s = Some s1" "config s1 = config s" "count s1 = count s"
      "destroyed s1 = destroyed s" "itemLog s1 = itemLog s"
    using lazyOpen_any [OF assms(4)] by blast
  have w: "write_private h s chunk = Some ([CbErr (ValidationError err)], s1)"
    using write_private_invalid [OF s1(1), of schema chunk err h] assms(1-3) s1(2) by simp
  have open_cases: "s1 = s \<or> (outstream s = None \<and> openOutstream s = Some s1)"
    using s1(1) by (auto simp: lazyOpen_def split: if_splits)
  have total: "getTotalCount s1 = getTotalCount s" if "outstream s \<noteq> None \<or> files s = []"
  proof (cases "s1 = s")
    case True
    then show ?thesis by simp
  next
    case False
    with open_cases that have "files s = []" "openOutstream s = Some s1" by auto
    moreover obtain s' where "openOutstream s = Some s'" "files s' = files s @ [getConfig s']"
      using openOutstream_any [OF assms(4)] by blast
    ultimately have "length (files s1) = 1" by simp
    with \<open>files s = []\<close> s1(3) show ?thesis by (simp add: getTotalCount_def)
  qed
  have "\<forall>chunk'. write_private h s1 chunk' = write_private h s chunk'"
    using write_private_after_lazyOpen [OF s1(1,4)] by blast
  with w s1 total open_cases show ?thesis
    by (intro exI [of _ s1]) (auto simp: getCount_def)
qed

theorem invalid_item_recoverable_witness:
  "itemValidationSchema (config ex_engine) = Some ex_schema
   \<and> validateChunk ex_schema (Str ''I will not pass validation!'') = Some ''must be of type object''
   \<and> \<not> destroyed ex_engine
   \<and> has_placeholder (keyPattern (file_cfg (config ex_engine)))
   \<and> (\<exists>s1. write_private ex_host ex_engine (Str ''I will not pass validation!'')
               = Some ([CbErr (ValidationError ''must be of type object'')], s1)
          \<and> getCount s1 = getCount ex_engine \<and> itemLog s1 = itemLog ex_engine
          \<and> write_private ex_host s1 (Val (JNumber 1))
               = write_private ex_host ex_engine (Val (JNumber 1)))"
proof -
  have 1: "itemValidationSchema (config ex_engine) = Some ex_schema"
    by (simp add: ex_engine_def initialState_def incrementKey_def ex_config_def)
  have 2: "validateChunk ex_schema (Str ''I will not pass validation!'') = Some ''must be of type object''"
    by (simp add: validateChunk_def ex_schema_def)
  have 3: "\<not> destroyed ex_engine"
    by (simp add: ex_engine_def initialState_def incrementKey_def)
  have 4: "has_placeholder (keyPattern (file_cfg (config ex_engine)))"
    by code_simp
  from invalid_item_recoverable [OF 1 2 3 4, of ex_host] 1 2 3 4 show ?thesis
    by blast
qed

section \<open>The lazy engine opens its file before it validates\<close>

text \<open>
  Claim C10 says that on every lazy engine the first write opens the file before the
  item is validated, writes the opening bracket, and that an engine which only receives
  invalid items leaves one file holding the bracket alone. Under the append policy an
  existing file is resumed instead: on the folder with a finished file of two elements,
  the first write (of an invalid item) leaves the file as it was, and no bracket is
  written.
\<close>

theorem lazy_resume_counterexample:
  "lazy ex_append_config
   \<and> outcome (firstWrite ex_host ex_append_config ex_disk_resume (Str ''I will not pass validation!''))
       = Some ([CbErr (ValidationError ''must be of type object'')], False, 0, 0,
               [(''output/testfile_0000.json'', Some ''[1,2]\<newline>'')])"
  by code_simp

text \<open>
  Claim C10, as amended: on a lazy engine, under the default or the overwrite policy, or
  under the append policy when no file exists at the first name, the first write opens
  the file before validation: also when the item fails validation, the path is the one
  entry of the file list, the file holds the opening bracket alone and nothing else on
  the disk has changed, no item has been written and the counts are zero; further invalid
  items change nothing.
\<close>

theorem lazy_first_write_opens:
  assumes "constructor args d = Some (Inr s)" and "lazy args"
    and "itemValidationSchema args = Some schema" and "validateChunk schema chunk = Some err"
    and "has_placeholder (keyPattern (file_cfg (config s)))"
    and "append_cfg args \<and> \<not> overwrite args \<longrightarrow> fmlookup d (getConfig s) = None"
  shows "\<exists>s'. write_private h s chunk = Some ([CbErr (ValidationError err)], s')
           \<and> getFilePaths s' = [getConfig s']
           \<and> fmlookup (disk s') (getConfig s') = Some ''[''
           \<and> (\<not> overwrite args \<longrightarrow> fmlookup d (getConfig s') = None)
           \<and> (\<forall>p. p \<noteq> getConfig s' \<longrightarrow> fmlookup (disk s') p = fmlookup d p)
           \<and> getCount s' = 0 \<and> getTotalCount s' = 0 \<and> itemLog s' = []
           \<and> (\<forall>cs. (\<forall>c\<in>set cs. \<not> passesValidation args c) \<longrightarrow> writeAll h s' cs = Some s')"
proof -
  let ?cfg = "args\<lparr>file_cfg := trimKeyPattern (file_cfg args)\<rparr>"
  have s: "s = initialState ?cfg d"
    using assms(1,2) by (rule constructor_lazy)
  have cfg: "config s = ?cfg" and init: "count s = 0" "files s = []" "\<not> destroyed s"
      "outstream s = None" "disk s = d" "itemLog s = []" "key_current s"
    unfolding s by (simp_all add: initialState_fields)
  have pol: "append_cfg (config s) \<and> \<not> overwrite (config s) \<longrightarrow> fmlookup (disk s) (getConfig s) = None"
    using assms(6) by (simp add: cfg init)
  obtain n where n: "openOutstream s =
             Some (openOverwrite (indexPath (config s) n)
                    ((setIndex n s)\<lparr>files := files s @ [indexPath (config s) n]\<rparr>))"
      "\<not> overwrite (config s) \<longrightarrow> fmlookup (disk s) (indexPath (config s) n) = None"
    using openOutstream_creates [OF assms(5) init(7) pol] by blast
  define s' where "s' = openOverwrite (indexPath (config s) n)
                    ((setIndex n s)\<lparr>files := files s @ [indexPath (config s) n]\<rparr>)"
  have f: "config s' = config s" "count s' = 0" "files s' = [indexPath (config s) n]"
      "\<not> destroyed s'" "itemLog s' = []" "outstream s' \<noteq> None"
      "disk s' = fmupd (indexPath (config s) n) ''['' d"
      "getConfig s' = indexPath (config s) n"
    using init by (simp_all add: s'_def setIndex_def getConfig_def indexPath_def)
  have "lazyOpen s = Some s'"
    using n(1) assms(2) init(4) by (simp add: lazyOpen_def cfg s'_def)
  moreover have "itemValidationSchema (config s') = Some schema"
    using assms(3) by (simp add: f cfg)
  ultimately have w: "write_private h s chunk = Some ([CbErr (ValidationError err)], s')"
    using write_private_invalid [of s s' schema chunk err h] assms(4) init(3) by simp
  have pv: "passesValidation (config s') = passesValidation args"
    by (rule passesValidation_cong) (simp add: f cfg)
  have all: "\<forall>cs. (\<forall>c\<in>set cs. \<not> passesValidation args c) \<longrightarrow> writeAll h s' cs = Some s'"
    using writeAll_invalid [OF f(6,4)] by (simp add: pv)
  have "getFilePaths s' = [getConfig s']" "fmlookup (disk s') (getConfig s') = Some ''[''"
    "\<forall>p. p \<noteq> getConfig s' \<longrightarrow> fmlookup (disk s') p = fmlookup d p"
    "getCount s' = 0" "getTotalCount s' = 0"
    "\<not> overwrite args \<longrightarrow> fmlookup d (getConfig s') = None"
    using n(2) by (simp_all add: f getFilePaths_def getCount_def getTotalCount_def cfg init)
  with w all f(5) show ?thesis
    by blast
qed

theorem lazy_first_write_opens_witness:
  "constructor ex_config fmempty = Some (Inr ex_engine) \<and> lazy ex_config
   \<and> itemValidationSchema ex_config = Some ex_schema
   \<and> validateChunk ex_schema (Str ''I will not pass validation!'') = Some ''must be of type object''
   \<and> has_placeholder (keyPattern (file_cfg (config ex_engine)))
   \<and> (\<exists>s'. write_private ex_host ex_engine (Str ''I will not pass validation!'')
               = Some ([CbErr (ValidationError ''must be of type object'')], s')
          \<and> getFilePaths s' = [getConfig s']
          \<and> fmlookup (disk s') (getConfig s') = Some ''[''
          \<and> getCount s' = 0 \<and> getTotalCount s' = 0)"
proof -
  have 2: "lazy ex_config" and 3: "itemValidationSchema ex_config = Some ex_schema"
    and 6: "append_cfg ex_config \<and> \<not> overwrite ex_config
              \<longrightarrow> fmlookup fmempty (getConfig ex_engine) = None"
    by (simp_all add: ex_config_def)
  have 4: "validateChunk ex_schema (Str ''I will not pass validation!'') = Some ''must be of type object''"
    by (simp add: validateChunk_def ex_schema_def)
  have 5: "has_placeholder (keyPattern (file_cfg (config ex_engine)))"
    by code_simp
  from lazy_first_write_opens [OF ex_constructed 2 3 4 5 6, of ex_host] ex_constructed 2 3 4 5
  show ?thesis by blast
qed

section \<open>Resuming an existing file: one more element\<close>

text \<open>
  Claim C3 says that an engine opened under the append policy over a file with \<open>k\<close>
  elements, one valid item written and the engine finalized, leaves the file with
  \<open>k + 1\<close> elements, the new one last. The code asks for a stream that starts two bytes
  before the end, to write over the terminator, but opens it with the flag \<^verbatim>\<open>a+\<close>, so that
  its writes land after the terminator. Over the finished file with the elements \<open>1\<close> and
  \<open>2\<close>, after the item \<open>3\<close>, the file is no JSON array:
\<close>

theorem resumed_item_lands_after_terminator:
  "fmlookup ex_disk_resume ''output/testfile_0000.json'' = Some ''[1,2]\<newline>''
   \<and> map_option observe (runAll ex_host ex_append_config ex_disk_resume [Val (JNumber 3)]) =
       Some (True, 1, 1, [(''output/testfile_0000.json'', Some ''[1,2]\<newline>,3]\<newline>'')])"
  by code_simp

section \<open>The total count\<close>

text \<open>
  Claim C8. In every state that an engine reaches (construction, writes before
  finalization, finalization), with a key pattern that holds the placeholder and a
  positive item limit: the total count reported equals the sum, over the files opened, of
  the numbers of items the engine wrote to each of them (and the number of all items
  written); every file but the current one received exactly \<open>maxItems\<close> items, the
  current one \<open>count\<close> items, at most \<open>maxItems\<close>; so with more than one file the total is
  \<open>(length files - 1) * maxItems + count\<close>, and otherwise it is \<open>count\<close>.
\<close>

theorem total_count_invariant:
  assumes "reachable h s" and "has_placeholder (keyPattern (file_cfg (config s)))"
    and "1 \<le> maxItems (config s)"
  shows "getTotalCount s = sum_list (map (count_list (itemLog s)) (getFilePaths s))
       \<and> getTotalCount s = length (itemLog s)
       \<and> (\<forall>f\<in>set (butlast (getFilePaths s)). count_list (itemLog s) f = maxItems (config s))
       \<and> (getFilePaths s \<noteq> [] \<longrightarrow> count_list (itemLog s) (last (getFilePaths s)) = getCount s)
       \<and> getCount s \<le> maxItems (config s)
       \<and> (1 < length (getFilePaths s) \<longrightarrow>
            getTotalCount s = (length (getFilePaths s) - 1) * maxItems (config s) + getCount s)
       \<and> (length (getFilePaths s) \<le> 1 \<longrightarrow> getTotalCount s = getCount s)"
proof -
  have "engine_inv s"
    using assms by (rule reachable_engine_inv)
  then have inv: "distinct (files s)" "files s = [] \<longrightarrow> count s = 0"
      "itemLog s = concat (map (replicate (maxItems (config s))) (butlast (files s)))
            @ replicate (count s) (last (files s))"
      "count s \<le> maxItems (config s)"
    by (simp_all add: engine_inv_def counts_inv_def)
  note shape = log_shape [OF inv(1-3)]
  have total: "getTotalCount s = (length (files s) - 1) * maxItems (config s) + count s"
    by (cases "files s") (simp_all add: getTotalCount_def)
  show ?thesis
    unfolding getFilePaths_def getCount_def
    using shape inv(4) total by (simp add: getTotalCount_def)
qed


theorem total_count_invariant_witness:
  "\<exists>s. runAll ex_host ex_config fmempty [Val (JNumber 1), Val (JNumber 2), Val (JNumber 3)] = Some s
      \<and> reachable ex_host s \<and> has_placeholder (keyPattern (file_cfg (config s)))
      \<and> 1 \<le> maxItems (config s)
      \<and> getFilePaths s = [''output/testfile_0000.json'', ''output/testfile_0001.json'']
      \<and> getTotalCount s = 3
      \<and> getTotalCount s = sum_list (map (count_list (itemLog s)) (getFilePaths s))
      \<and> count_list (itemLog s) ''output/testfile_0000.json'' = maxItems (config s)"
proof -
  let ?run = "runAll ex_host ex_config fmempty [Val (JNumber 1), Val (JNumber 2), Val (JNumber 3)]"
  have obs: "map_option getTotalCount ?run = Some 3"
      "map_option getFilePaths ?run
         = Some [''output/testfile_0000.json'', ''output/testfile_0001.json'']"
    by code_simp+
  then obtain s where s: "?run = Some s"
    by blast
  with obs have o: "getTotalCount s = 3"
      "getFilePaths s = [''output/testfile_0000.json'', ''output/testfile_0001.json'']"
    by simp_all
  have r: "reachable ex_host s" and cfg: "config s = ex_config"
    using runAll_reachable [OF s] by (simp_all add: ex_config_def ex_trim)
  have 2: "has_placeholder (keyPattern (file_cfg (config s)))"
    unfolding cfg by code_simp
  have 3: "1 \<le> maxItems (config s)"
    unfolding cfg by (simp add: ex_config_def)
  from total_count_invariant [OF r 2 3] s r 2 3 o show ?thesis
    by (intro exI [of _ s]) simp
qed

section \<open>Rotation by count\<close>

text \<open>
  Claim C2. An engine is constructed on an empty folder with an item limit \<open>M \<ge> 1\<close> (and a
  key pattern that holds the placeholder), \<open>N \<ge> 1\<close> items that all pass validation and
  encoding are written to it, and it is finalized. Then exactly \<open>ceil (N / M)\<close> files are
  produced: the paths the engine reports are those of the indices \<open>0, \<dots>, ceil (N / M) - 1\<close>,
  they are distinct, and the folder holds these files and no other. The files hold, in
  order, the array texts of consecutive groups of the element texts: every file but the
  last has exactly \<open>M\<close> elements and the last one \<open>N - M * (ceil (N / M) - 1)\<close>. After the
  first \<open>k\<close> items, \<open>ceil (k / M)\<close> files have been opened; in particular there is one file
  only as long as \<open>k \<le> M\<close>, so the second file is not opened before item \<open>M + 1\<close> arrives.
\<close>

theorem rotation_by_count:
  fixes s0 :: "('v, 'e) arraystream"
  assumes "constructor args fmempty = Some (Inr s0)"
    and "has_placeholder (keyPattern (file_cfg (config s0)))" and "1 \<le> maxItems args"
    and "\<forall>x\<in>set cs. passesValidation args x" and "map (encode h) cs = map Some ts"
    and "cs \<noteq> []"
  shows "\<exists>s sf gs. writeAll h s0 cs = Some s \<and> final_private s = Some sf
      \<and> length (getFilePaths sf) = ceil_div (length cs) (maxItems args)
      \<and> getFilePaths sf = map (indexPath (config s0)) [0..<ceil_div (length cs) (maxItems args)]
      \<and> distinct (getFilePaths sf)
      \<and> fmdom' (disk sf) = set (getFilePaths sf)
      \<and> length gs = length (getFilePaths sf) \<and> concat gs = ts
      \<and> (\<forall>i<length gs.
            fmlookup (disk sf) (getFilePaths sf ! i) = Some (arrayText (gs ! i))
            \<and> length (gs ! i)
                = (if Suc i < length gs then maxItems args
                   else length cs - maxItems args * (ceil_div (length cs) (maxItems args) - 1)))
      \<and> (\<forall>k. 1 \<le> k \<and> k \<le> length cs \<longrightarrow>
            (\<exists>sk. writeAll h s0 (take k cs) = Some sk
                  \<and> length (getFilePaths sk) = ceil_div k (maxItems args)))
      \<and> (\<forall>k. 1 \<le> k \<and> k \<le> length cs \<and> k \<le> maxItems args \<longrightarrow>
            (\<exists>sk. writeAll h s0 (take k cs) = Some sk \<and> length (getFilePaths sk) = 1))"
proof -
  let ?c = "config s0"
  let ?m = "maxItems args"
  let ?P = "indexPath ?c"
  have len: "length ts = length cs"
    using assms(5) by (metis length_map)
  have ts: "ts \<noteq> []"
    using assms(6) len by auto
  have prefix: "\<exists>sk. writeAll h s0 (take k cs) = Some sk
      \<and> length (getFilePaths sk) = ceil_div k ?m" if k: "1 \<le> k" "k \<le> length cs" for k
  proof -
    have valid: "\<forall>x\<in>set (take k cs). passesValidation args x"
      using assms(4) by (meson in_set_takeD)
    have "take k (map (encode h) cs) = take k (map Some ts)"
      by (simp only: assms(5))
    then have enc: "map (encode h) (take k cs) = map Some (take k ts)"
      by (simp only: take_map)
    have ne: "take k cs \<noteq> []" "take k ts \<noteq> []"
      using k assms(6) ts by (simp_all add: take_eq_Nil)
    obtain sk where sk: "writeAll h s0 (take k cs) = Some sk"
        "tracks ?c sk (groupItems ?m [[]] (take k ts))"
      using run_tracks [OF assms(1,2) valid enc ne(1)] by blast
    have "length (getFilePaths sk) = length (groupItems ?m [[]] (take k ts))"
      by (simp only: tracks_files [OF sk(2)] length_map length_upt diff_zero)
    also have "\<dots> = ceil_div (length (take k ts)) ?m"
      by (rule grouping_counts(1) [OF assms(3) ne(2)])
    also have "length (take k ts) = k"
      using k len by simp
    finally have "length (getFilePaths sk) = ceil_div k ?m" .
    with sk(1) show ?thesis
      by (intro exI [of _ sk] conjI)
  qed
  define gs where "gs = groupItems ?m [[]] ts"
  have g: "length gs = ceil_div (length ts) ?m" "concat gs = ts"
      "\<forall>i<length gs. length (gs ! i)
            = (if Suc i < length gs then ?m else length ts - ?m * (ceil_div (length ts) ?m - 1))"
    unfolding gs_def
    by (rule grouping_counts(1) [OF assms(3) ts], rule grouping_counts(2) [OF assms(3) ts],
        rule grouping_counts(4) [OF assms(3) ts])
  obtain s where s: "writeAll h s0 cs = Some s" "tracks ?c s gs"
    using run_tracks [OF assms(1,2,4,5,6)] unfolding gs_def by blast
  from tracks_final [OF s(2) assms(2)]
  obtain sf where fin: "final_private s = Some sf \<and> destroyed sf
      \<and> files sf = map ?P [0..<length gs]
      \<and> (\<forall>i<length gs. fmlookup (disk sf) (?P i) = Some (arrayText (gs ! i)))
      \<and> (\<forall>p. (\<forall>i<length gs. p \<noteq> ?P i) \<longrightarrow> fmlookup (disk sf) p = None)"
    by (rule exE)
  note sf = fin [THEN conjunct1] fin [THEN conjunct2, THEN conjunct2, THEN conjunct1]
    fin [THEN conjunct2, THEN conjunct2, THEN conjunct2, THEN conjunct1]
    fin [THEN conjunct2, THEN conjunct2, THEN conjunct2, THEN conjunct2]
  have paths: "getFilePaths sf = map ?P [0..<length gs]"
    using sf(2) by (simp add: getFilePaths_def)
  have n: "length gs = ceil_div (length cs) ?m"
    using g(1) len by simp
  have "inj_on ?P (set [0..<length gs])"
    by (rule inj_onI) (rule indexPath_inj [OF assms(2)])
  then have dist: "distinct (getFilePaths sf)"
    unfolding paths by (simp only: distinct_map distinct_upt simp_thms)
  have dom: "fmdom' (disk sf) = set (getFilePaths sf)"
  proof (intro set_eqI iffI)
    fix p assume p: "p \<in> fmdom' (disk sf)"
    have "\<not> (\<forall>i<length gs. p \<noteq> ?P i)"
    proof
      assume "\<forall>i<length gs. p \<noteq> ?P i"
      then have "fmlookup (disk sf) p = None"
        by (rule sf(4) [THEN spec, THEN mp])
      then have "p \<notin> fmdom' (disk sf)"
        by (rule fmdom'_notI)
      from this p show False
        by (rule notE)
    qed
    then obtain i where i: "i < length gs" "p = ?P i"
      unfolding Ball_def by (simp only: not_all not_imp not_not) (elim exE conjE)
    have "?P i \<in> ?P ` set [0..<length gs]"
      using i(1) by (intro imageI) simp
    then show "p \<in> set (getFilePaths sf)"
      unfolding paths i(2) by (simp only: set_map)
  next
    fix p assume "p \<in> set (getFilePaths sf)"
    then have "p \<in> ?P ` set [0..<length gs]"
      unfolding paths by (simp only: set_map)
    then obtain i where i: "i \<in> set [0..<length gs]" "p = ?P i"
      by (elim imageE)
    from i(1) have "i < length gs"
      by simp
    then have "fmlookup (disk sf) (?P i) = Some (arrayText (gs ! i))"
      by (rule sf(3) [rule_format])
    then have "fmlookup (disk sf) p = Some (arrayText (gs ! i))"
      unfolding i(2) .
    then show "p \<in> fmdom' (disk sf)"
      by (rule fmdom'I)
  qed
  have contents: "\<forall>i<length gs.
            fmlookup (disk sf) (getFilePaths sf ! i) = Some (arrayText (gs ! i))
            \<and> length (gs ! i)
                = (if Suc i < length gs then ?m
                   else length cs - ?m * (ceil_div (length cs) ?m - 1))"
  proof (intro allI impI conjI)
    fix i assume i: "i < length gs"
    have "getFilePaths sf ! i = ?P i"
      using i unfolding paths by simp
    then show "fmlookup (disk sf) (getFilePaths sf ! i) = Some (arrayText (gs ! i))"
      using sf(3) [rule_format, OF i] by (simp only:)
    show "length (gs ! i)
                = (if Suc i < length gs then ?m
                   else length cs - ?m * (ceil_div (length cs) ?m - 1))"
      using g(3) [rule_format, OF i] unfolding len .
  qed
  have first: "\<forall>k. 1 \<le> k \<and> k \<le> length cs \<and> k \<le> ?m \<longrightarrow>
            (\<exists>sk. writeAll h s0 (take k cs) = Some sk \<and> length (getFilePaths sk) = 1)"
  proof (intro allI impI)
    fix k assume "1 \<le> k \<and> k \<le> length cs \<and> k \<le> ?m"
    then have k: "1 \<le> k" "k \<le> length cs" "k \<le> ?m"
      by simp_all
    show "\<exists>sk. writeAll h s0 (take k cs) = Some sk \<and> length (getFilePaths sk) = 1"
      using prefix [OF k(1,2)] unfolding ceil_div_one [OF k(1,3)] .
  qed
  have every: "\<forall>k. 1 \<le> k \<and> k \<le> length cs \<longrightarrow>
            (\<exists>sk. writeAll h s0 (take k cs) = Some sk
                  \<and> length (getFilePaths sk) = ceil_div k ?m)"
    by (intro allI impI, elim conjE, rule prefix)
  have "length (getFilePaths sf) = ceil_div (length cs) ?m"
      "getFilePaths sf = map ?P [0..<ceil_div (length cs) ?m]"
      "length gs = length (getFilePaths sf)"
    using n unfolding paths by simp_all
  with s(1) sf(1) dist dom g(2) contents every first show ?thesis
    by (intro exI [of _ s] exI [of _ sf] exI [of _ gs] conjI)
qed

theorem rotation_by_count_witness:
  "constructor ex_config fmempty = Some (Inr ex_engine)
   \<and> has_placeholder (keyPattern (file_cfg (config ex_engine)))
   \<and> 1 \<le> maxItems ex_config
   \<and> passesValidation ex_config (Val (JNumber 1))
   \<and> passesValidation ex_config (Val (JNumber 2))
   \<and> passesValidation ex_config (Val (JNumber 3))
   \<and> map (encode ex_host) [Val (JNumber 1), Val (JNumber 2), Val (JNumber 3)]
        = map Some [''1'', ''2'', ''3'']
   \<and> (\<exists>s sf. writeAll ex_host ex_engine [Val (JNumber 1), Val (JNumber 2), Val (JNumber 3)] = Some s
          \<and> final_private s = Some sf
          \<and> length (getFilePaths sf) = 2
          \<and> getFilePaths sf = [''output/testfile_0000.json'', ''output/testfile_0001.json'']
          \<and> distinct (getFilePaths sf)
          \<and> fmdom' (disk sf) = set (getFilePaths sf))
   \<and> map_option fileContents
        (runAll ex_host ex_config fmempty [Val (JNumber 1), Val (JNumber 2), Val (JNumber 3)])
        = Some [(''output/testfile_0000.json'', Some ''[1,2]\<newline>''),
                (''output/testfile_0001.json'', Some ''[3]\<newline>'')]"
proof -
  let ?cs = "[Val (JNumber 1), Val (JNumber 2), Val (JNumber 3)]"
  have 1: "constructor ex_config fmempty = Some (Inr ex_engine)"
    by (rule ex_constructed)
  have 2: "has_placeholder (keyPattern (file_cfg (config ex_engine)))"
    by code_simp
  have 3: "1 \<le> maxItems ex_config"
    by (simp add: ex_config_def)
  have v: "passesValidation ex_config (Val (JNumber 1))" "passesValidation ex_config (Val (JNumber 2))"
      "passesValidation ex_config (Val (JNumber 3))"
    by (simp_all add: passesValidation_def ex_config_def validateChunk_def ex_schema_def)
  then have 4: "\<forall>x\<in>set ?cs. passesValidation ex_config x"
    by simp
  have 5: "map (encode ex_host) ?cs = map Some [''1'', ''2'', ''3'']"
    by code_simp
  have 6: "?cs \<noteq> []"
    by simp
  have n: "ceil_div (length ?cs) (maxItems ex_config) = 2"
    by code_simp
  have p: "map (indexPath (config ex_engine)) [0..<2]
      = [''output/testfile_0000.json'', ''output/testfile_0001.json'']"
    by code_simp
  have run: "map_option fileContents (runAll ex_host ex_config fmempty ?cs)
        = Some [(''output/testfile_0000.json'', Some ''[1,2]\<newline>''),
                (''output/testfile_0001.json'', Some ''[3]\<newline>'')]"
    by code_simp
  from rotation_by_count [OF 1 2 3 4 5 6]
  obtain s sf where r: "writeAll ex_host ex_engine ?cs = Some s" "final_private s = Some sf"
      "length (getFilePaths sf) = ceil_div (length ?cs) (maxItems ex_config)"
      "getFilePaths sf
         = map (indexPath (config ex_engine)) [0..<ceil_div (length ?cs) (maxItems ex_config)]"
      "distinct (getFilePaths sf)" "fmdom' (disk sf) = set (getFilePaths sf)"
    by (elim exE conjE)
  have "\<exists>s sf. writeAll ex_host ex_engine ?cs = Some s
          \<and> final_private s = Some sf
          \<and> length (getFilePaths sf) = 2
          \<and> getFilePaths sf = [''output/testfile_0000.json'', ''output/testfile_0001.json'']
          \<and> distinct (getFilePaths sf)
          \<and> fmdom' (disk sf) = set (getFilePaths sf)"
    using r unfolding n p by (intro exI [of _ s] exI [of _ sf] conjI)
  with 1 2 3 v 5 run show ?thesis
    by (intro conjI)
qed

end
